theory Spec2Isabelle
  imports Complex_Main "HOL-Library.Sublist" "HOL-Library.Multiset"
    "HOL-Library.Char_ord" "HOL-Library.List_Lexorder"
begin

section \<open>Hybrid merge and dynamic threshold (src/memory/hybrid.ts)\<close>

text \<open>
  JavaScript numbers are modelled by \<^typ>\<open>real\<close>: the properties proved below are
  about the comparisons and the arithmetic the code writes, not about rounding. A record that carries a numeric
  \<open>score\<close> field (\<open>T extends { score: number }\<close>) is an extension of the record
  \<open>scored\<close>.
\<close>

record scored =
  score :: real

text \<open>The three tiers of \<open>calculateDynamicThreshold\<close>, in the order of the source.\<close>

definition calculateDynamicThreshold :: "real \<Rightarrow> real" where
  "calculateDynamicThreshold topScore =
     (if topScore \<ge> 7 / 10 then topScore * (5 / 10)
      else if topScore \<ge> 3 / 10 then topScore * (6 / 10)
      else 15 / 100)"

text \<open>
  \<open>applyDynamicThreshold\<close>: the input is returned as it is when the filter is disabled or
  the list is empty; otherwise the threshold is computed from the first element and
  \<open>Array.prototype.filter\<close> keeps the elements at or above it.
\<close>

fun applyDynamicThreshold :: "'a scored_scheme list \<Rightarrow> bool \<Rightarrow> 'a scored_scheme list" where
  "applyDynamicThreshold results dynamicThreshold =
     (if \<not> dynamicThreshold \<or> results = [] then results
      else let topScore = score (hd results);
               threshold = calculateDynamicThreshold topScore
           in filter (\<lambda>r. score r \<ge> threshold) results)"

text \<open>
  The result types of hybrid.ts. The merged result is the anonymous return type of
  \<open>mergeHybridResults\<close>; it carries no \<open>id\<close>.
\<close>

record HybridVectorResult =
  v_id :: string
  v_path :: string
  v_startLine :: int
  v_endLine :: int
  v_source :: string
  v_snippet :: string
  vectorScore :: real

record HybridKeywordResult =
  k_id :: string
  k_path :: string
  k_startLine :: int
  k_endLine :: int
  k_source :: string
  k_snippet :: string
  textScore :: real

text \<open>The value type of the \<open>byId\<close> map inside \<open>mergeHybridResults\<close>.\<close>

record merge_entry =
  e_id :: string
  e_path :: string
  e_startLine :: int
  e_endLine :: int
  e_source :: string
  e_snippet :: string
  e_vectorScore :: real
  e_textScore :: real

record HybridResult = scored +
  path :: string
  startLine :: int
  endLine :: int
  snippet :: string
  source :: string

record mergeHybridResults_params =
  vector :: "HybridVectorResult list"
  keyword :: "HybridKeywordResult list"
  vectorWeight :: real
  textWeight :: real
  dynamicThreshold :: "bool option"

text \<open>
  A JavaScript \<open>Map\<close> iterates in insertion order, and \<open>set\<close> on a key that is present
  replaces the value where the key stands. It is an association list with distinct keys.
\<close>

type_synonym ('k, 'v) js_map = "('k \<times> 'v) list"

fun map_set :: "('k, 'v) js_map \<Rightarrow> 'k \<Rightarrow> 'v \<Rightarrow> ('k, 'v) js_map" where
  "map_set [] k v = [(k, v)]"
| "map_set ((k', v') # m) k v =
     (if k' = k then (k, v) # m else (k', v') # map_set m k v)"

definition map_get :: "('k, 'v) js_map \<Rightarrow> 'k \<Rightarrow> 'v option" where
  "map_get m k = map_of m k"

definition map_values :: "('k, 'v) js_map \<Rightarrow> 'v list" where
  "map_values m = map snd m"

text \<open>The body of the first loop: every vector result is stored under its id.\<close>

definition vector_step ::
  "(string, merge_entry) js_map \<Rightarrow> HybridVectorResult \<Rightarrow> (string, merge_entry) js_map" where
  "vector_step byId r =
     map_set byId (v_id r)
       \<lparr>e_id = v_id r, e_path = v_path r, e_startLine = v_startLine r, e_endLine = v_endLine r,
        e_source = v_source r, e_snippet = v_snippet r,
        e_vectorScore = vectorScore r, e_textScore = 0\<rparr>"

text \<open>
  The body of the second loop: an entry that exists is updated in place (its text score,
  and its snippet when the keyword snippet is not empty); otherwise a new entry is stored.
\<close>

definition keyword_step ::
  "(string, merge_entry) js_map \<Rightarrow> HybridKeywordResult \<Rightarrow> (string, merge_entry) js_map" where
  "keyword_step byId r =
     (case map_get byId (k_id r) of
        Some existing \<Rightarrow>
          map_set byId (k_id r)
            (existing\<lparr>e_textScore := textScore r,
                      e_snippet := (if k_snippet r \<noteq> [] then k_snippet r else e_snippet existing)\<rparr>)
      | None \<Rightarrow>
          map_set byId (k_id r)
            \<lparr>e_id = k_id r, e_path = k_path r, e_startLine = k_startLine r,
             e_endLine = k_endLine r, e_source = k_source r, e_snippet = k_snippet r,
             e_vectorScore = 0, e_textScore = textScore r\<rparr>)"

definition merged_of :: "real \<Rightarrow> real \<Rightarrow> merge_entry \<Rightarrow> HybridResult" where
  "merged_of vw tw entry =
     (let sc = vw * e_vectorScore entry + tw * e_textScore entry
      in \<lparr>score = sc, path = e_path entry, startLine = e_startLine entry,
          endLine = e_endLine entry, snippet = e_snippet entry, source = e_source entry\<rparr>)"

text \<open>
  \<open>xs.sort((a, b) => b.score - a.score)\<close>: \<open>Array.prototype.sort\<close> is stable, and this
  comparator orders by descending score. \<^const>\<open>sort_key\<close> is the stable insertion sort.
\<close>

definition sort_by_score_desc :: "'a scored_scheme list \<Rightarrow> 'a scored_scheme list" where
  "sort_by_score_desc xs = sort_key (\<lambda>r. - score r) xs"

definition mergeHybridResults :: "mergeHybridResults_params \<Rightarrow> HybridResult list" where
  "mergeHybridResults params =
     (let byId = foldl vector_step [] (vector params);
          byId = foldl keyword_step byId (keyword params);
          merged = map (merged_of (vectorWeight params) (textWeight params)) (map_values byId);
          sorted = sort_by_score_desc merged
      in applyDynamicThreshold sorted
           (case dynamicThreshold params of None \<Rightarrow> False | Some b \<Rightarrow> b))"

text \<open>
  The vocabulary of the specification of \<open>mergeHybridResults\<close>, written from its
  words: the distinct ids in the order of their first occurrence (vector results
  first, then keyword results), and the weighted score of an id, where a side on which
  the id does not occur contributes 0 and, when an id occurs several times on a side,
  the last occurrence counts.
\<close>

fun firstOccurrences :: "'a list \<Rightarrow> 'a list" where
  "firstOccurrences [] = []"
| "firstOccurrences (x # xs) = x # filter (\<lambda>y. y \<noteq> x) (firstOccurrences xs)"

definition lastScoreOr0 :: "('r \<Rightarrow> string) \<Rightarrow> ('r \<Rightarrow> real) \<Rightarrow> 'r list \<Rightarrow> string \<Rightarrow> real" where
  "lastScoreOr0 key val xs i =
     (let occ = filter (\<lambda>r. key r = i) xs in if occ = [] then 0 else val (last occ))"

definition hybridScore :: "mergeHybridResults_params \<Rightarrow> string \<Rightarrow> real" where
  "hybridScore params i =
     vectorWeight params * lastScoreOr0 v_id vectorScore (vector params) i
     + textWeight params * lastScoreOr0 k_id textScore (keyword params) i"

definition insertionOrder :: "mergeHybridResults_params \<Rightarrow> string list" where
  "insertionOrder params = firstOccurrences (map v_id (vector params) @ map k_id (keyword params))"

definition add_key :: "'k list \<Rightarrow> 'k \<Rightarrow> 'k list" where
  "add_key ks k = (if k \<in> set ks then ks else ks @ [k])"

text \<open>Reading the two scores of an entry that may be absent from the map.\<close>

definition vscore_of :: "merge_entry option \<Rightarrow> real" where
  "vscore_of eo = (case eo of None \<Rightarrow> 0 | Some e \<Rightarrow> e_vectorScore e)"

definition tscore_of :: "merge_entry option \<Rightarrow> real" where
  "tscore_of eo = (case eo of None \<Rightarrow> 0 | Some e \<Rightarrow> e_textScore e)"

text \<open>
  The specification of one id, written from its words and without the map: what is
  stored for an id is decided by the results that carry this id alone. Every vector
  result of the id replaces whatever the id had, with text score 0. A keyword result of
  the id sets the text score of what the id has, and its snippet when the keyword
  snippet is not empty; for an id that has nothing yet it stores a keyword-only entry
  with vector score 0. The merged result of an id is \<open>merged_of\<close> of its entry.
\<close>

definition slot_insert_vector :: "merge_entry option \<Rightarrow> HybridVectorResult \<Rightarrow> merge_entry option" where
  "slot_insert_vector slot r =
     Some \<lparr>e_id = v_id r, e_path = v_path r, e_startLine = v_startLine r,
           e_endLine = v_endLine r, e_source = v_source r, e_snippet = v_snippet r,
           e_vectorScore = vectorScore r, e_textScore = 0\<rparr>"

definition slot_apply_keyword :: "merge_entry option \<Rightarrow> HybridKeywordResult \<Rightarrow> merge_entry option" where
  "slot_apply_keyword slot r =
     (case slot of
        Some existing \<Rightarrow>
          Some (existing\<lparr>e_textScore := textScore r,
                          e_snippet := (if k_snippet r \<noteq> [] then k_snippet r
                                        else e_snippet existing)\<rparr>)
      | None \<Rightarrow>
          Some \<lparr>e_id = k_id r, e_path = k_path r, e_startLine = k_startLine r,
                e_endLine = k_endLine r, e_source = k_source r, e_snippet = k_snippet r,
                e_vectorScore = 0, e_textScore = textScore r\<rparr>)"

definition entry_of_id :: "mergeHybridResults_params \<Rightarrow> string \<Rightarrow> merge_entry option" where
  "entry_of_id params i =
     foldl slot_apply_keyword
       (foldl slot_insert_vector None (filter (\<lambda>r. v_id r = i) (vector params)))
       (filter (\<lambda>r. k_id r = i) (keyword params))"

definition result_of_id :: "mergeHybridResults_params \<Rightarrow> string \<Rightarrow> HybridResult option" where
  "result_of_id params i =
     map_option (merged_of (vectorWeight params) (textWeight params)) (entry_of_id params i)"

text \<open>A concrete input: id \<open>a\<close> twice among the vector results, id \<open>b\<close> on both sides, a tie.\<close>

definition merge_example :: mergeHybridResults_params where
  "merge_example =
     \<lparr>vector =
        [\<lparr>v_id = ''a'', v_path = ''pa'', v_startLine = 1, v_endLine = 2, v_source = ''m'',
          v_snippet = ''sa'', vectorScore = 5 / 10\<rparr>,
         \<lparr>v_id = ''b'', v_path = ''pb'', v_startLine = 1, v_endLine = 2, v_source = ''m'',
          v_snippet = ''sb'', vectorScore = 5 / 10\<rparr>,
         \<lparr>v_id = ''a'', v_path = ''pa2'', v_startLine = 3, v_endLine = 4, v_source = ''m'',
          v_snippet = ''sa2'', vectorScore = 3 / 10\<rparr>],
      keyword =
        [\<lparr>k_id = ''c'', k_path = ''pc'', k_startLine = 1, k_endLine = 2, k_source = ''m'',
          k_snippet = ''sc'', textScore = 5 / 10\<rparr>,
         \<lparr>k_id = ''b'', k_path = ''pb'', k_startLine = 1, k_endLine = 2, k_source = ''m'',
          k_snippet = [], textScore = 2 / 10\<rparr>,
         \<lparr>k_id = ''b'', k_path = ''pb'', k_startLine = 1, k_endLine = 2, k_source = ''m'',
          k_snippet = ''kb'', textScore = 0\<rparr>],
      vectorWeight = 1, textWeight = 1, dynamicThreshold = None\<rparr>"

section \<open>Vector search and recency penalty (src/memory/manager-search.ts)\<close>

record RecencyConfig =
  enabled :: bool
  lambda :: real
  windowDays :: real

text \<open>
  \<open>updatedAt\<close> is \<open>number | null | undefined\<close>: \<open>None\<close> stands for both null and
  undefined, which \<open>updatedAt == null\<close> does not tell apart.
\<close>

definition calculateRecencyPenalty :: "real option \<Rightarrow> real \<Rightarrow> real \<Rightarrow> real \<Rightarrow> real" where
  "calculateRecencyPenalty updatedAt now lam wdays =
     (case updatedAt of
        None \<Rightarrow> 0
      | Some u \<Rightarrow>
          if u > now then 0
          else let msPerDay = 24 * 60 * 60 * 1000;
                   daysSince = (now - u) / msPerDay;
                   ratio = min 1 (daysSince / wdays)
               in lam * ratio)"
















text \<open>
  A row of the accelerated query (\<open>SELECT c.id, c.path, c.start_line, c.end_line, c.text,
  c.source, c.updated_at, vec_distance_cosine(...) AS dist\<close>), and an element of what
  \<open>listChunks\<close> returns.
\<close>

record vec_row =
  row_id :: string
  row_path :: string
  start_line :: int
  end_line :: int
  row_text :: string
  row_source :: string
  dist :: real
  updated_at :: "real option"

record chunk =
  c_id :: string
  c_path :: string
  c_startLine :: int
  c_endLine :: int
  c_text :: string
  embedding :: "real list"
  c_source :: string
  updatedAt :: "real option"
















section \<open>Compaction safeguard (src/agents/pi-extensions/compaction-safeguard.ts)\<close>

text \<open>
  Strings are lists of 8-bit characters: the code units below 256 of a JavaScript string.
  \<open>String.prototype.includes\<close> tests for a contiguous occurrence.
\<close>

fun str_includes :: "string \<Rightarrow> string \<Rightarrow> bool" where
  "str_includes [] sub = (sub = [])"
| "str_includes (c # cs) sub = (prefix sub (c # cs) \<or> str_includes cs sub)"

text \<open>\<open>Array.prototype.join\<close>.\<close>

fun join :: "string \<Rightarrow> string list \<Rightarrow> string" where
  "join sep [] = []"
| "join sep [x] = x"
| "join sep (x # y # ys) = x @ sep @ join sep (y # ys)"

definition MAX_RECENT_TURNS_PRESERVE :: int where
  "MAX_RECENT_TURNS_PRESERVE = 12"


definition MAX_EXTRACTED_IDENTIFIERS :: nat where
  "MAX_EXTRACTED_IDENTIFIERS = 12"

definition REQUIRED_SUMMARY_SECTIONS :: "string list" where
  "REQUIRED_SUMMARY_SECTIONS =
     [''## Decisions'', ''## Open TODOs'', ''## Constraints/Rules'',
      ''## Pending user asks'', ''## Exact identifiers'']"

text \<open>
  A message, as far as this file reads it: the role, the content (a string, an array of
  blocks, or anything else), and the fields of a tool result. A block is an object with
  an optional \<open>type\<close> and an optional string \<open>text\<close>, or not an object at all.
\<close>

datatype block = Block (b_type: "string option") (b_text: "string option") | NotAnObject

datatype content = Text string | Blocks "block list" | OtherContent

record tool_details =
  status :: "string option"
  exitCode :: "int option"

record message =
  role :: string
  content :: content
  toolCallId :: "string option"
  toolName :: "string option"
  details :: "tool_details option"
  isError :: bool

text \<open>
  \<open>clampNonNegativeInt(value: unknown, fallback)\<close>: \<open>None\<close> stands for a value that is not a
  finite number (undefined, NaN, an infinity, another type), for which the fallback is
  taken.
\<close>

definition clampNonNegativeInt :: "real option \<Rightarrow> real \<Rightarrow> int" where
  "clampNonNegativeInt v fallback =
     (let normalized = (case v of Some x \<Rightarrow> x | None \<Rightarrow> fallback)
      in max 0 (\<lfloor>normalized\<rfloor>))"


definition is_turn_role :: "string \<Rightarrow> bool" where
  "is_turn_role r = (r = ''user'' \<or> r = ''assistant'')"

text \<open>
  The loop of \<open>splitPreservedRecentTurns\<close>: the index runs from the last message down to
  the first; \<open>collect_candidates messages n k cand\<close> has still to visit the indices below
  \<open>k\<close>, and stops as soon as \<open>n\<close> indices are collected.
\<close>

fun collect_candidates :: "message list \<Rightarrow> nat \<Rightarrow> nat \<Rightarrow> nat list \<Rightarrow> nat list" where
  "collect_candidates messages n 0 cand = cand"
| "collect_candidates messages n (Suc i) cand =
     (let cand' = (if is_turn_role (role (messages ! i)) then cand @ [i] else cand)
      in if length cand' \<ge> n then cand' else collect_candidates messages n i cand')"

text \<open>\<open>xs.filter((x, idx) => p(x, idx))\<close>.\<close>

definition filter_idx :: "('a \<Rightarrow> nat \<Rightarrow> bool) \<Rightarrow> 'a list \<Rightarrow> 'a list" where
  "filter_idx p xs = map fst (filter (\<lambda>(x, i). p x i) (zip xs [0..<length xs]))"

record split_result =
  summarizableMessages :: "message list"
  preservedMessages :: "message list"

definition splitPreservedRecentTurns :: "message list \<Rightarrow> real option \<Rightarrow> split_result" where
  "splitPreservedRecentTurns messages recentTurnsPreserve =
     (let preserveTurns = min MAX_RECENT_TURNS_PRESERVE (clampNonNegativeInt recentTurnsPreserve 0)
      in if preserveTurns \<le> 0
         then \<lparr>summarizableMessages = messages, preservedMessages = []\<rparr>
         else
           let preserveMessages = nat (preserveTurns * 2);
               candidateIndexes = collect_candidates messages preserveMessages (length messages) []
           in if candidateIndexes = []
              then \<lparr>summarizableMessages = messages, preservedMessages = []\<rparr>
              else
                \<lparr>summarizableMessages =
                   filter_idx (\<lambda>_ idx. idx \<notin> set candidateIndexes) messages,
                 preservedMessages =
                   filter (\<lambda>msg. is_turn_role (role msg))
                     (filter_idx (\<lambda>_ idx. idx \<in> set candidateIndexes) messages)\<rparr>)"

text \<open>A concrete transcript: two turns with a tool result inside the recent one.\<close>

definition text_message :: "string \<Rightarrow> string \<Rightarrow> message" where
  "text_message r t =
     \<lparr>role = r, content = Text t, toolCallId = None, toolName = None, details = None,
      isError = False\<rparr>"

definition split_example :: "message list" where
  "split_example =
     [text_message ''user'' ''older ask'', text_message ''assistant'' ''older answer'',
      text_message ''user'' ''recent ask'', text_message ''toolResult'' ''ok'',
      text_message ''assistant'' ''recent answer'']"


text \<open>
  Character classes are ranges of character codes. \<open>toLowerCase\<close> maps the upper-case
  letters among the code units below 256 (A-Z and the Latin-1 capitals) to lower case.
\<close>

definition in_range :: "char \<Rightarrow> char \<Rightarrow> char \<Rightarrow> bool" where
  "in_range lo hi c = ((of_char lo :: nat) \<le> of_char c \<and> (of_char c :: nat) \<le> of_char hi)"

definition lower_char :: "char \<Rightarrow> char" where
  "lower_char c =
     (let n = (of_char c :: nat)
      in if (65 \<le> n \<and> n \<le> 90) \<or> (192 \<le> n \<and> n \<le> 222 \<and> n \<noteq> 215)
         then char_of (n + 32) else c)"

definition toLowerCase :: "string \<Rightarrow> string" where
  "toLowerCase s = map lower_char s"

text \<open>The class \<open>[a-z0-9]\<close>.\<close>

definition is_az09 :: "char \<Rightarrow> bool" where
  "is_az09 c = (in_range CHR ''a'' CHR ''z'' c \<or> in_range CHR ''0'' CHR ''9'' c)"

text \<open>
  \<open>s.split(/[^a-z0-9]+/g)\<close>: the pieces between maximal runs of separator characters,
  with an empty piece before a leading and after a trailing separator. \<open>cur\<close> is the
  piece being read, \<open>insep\<close> tells that the previous character was a separator.
\<close>

fun split_loop :: "string \<Rightarrow> string \<Rightarrow> bool \<Rightarrow> string list" where
  "split_loop [] cur insep = [cur]"
| "split_loop (c # cs) cur insep =
     (if is_az09 c then split_loop cs (cur @ [c]) False
      else if insep then split_loop cs cur True
      else cur # split_loop cs [] True)"

definition split_non_alnum :: "string \<Rightarrow> string list" where
  "split_non_alnum s = split_loop s [] False"

text \<open>
  \<open>hasAskOverlap\<close>. \<open>!latestAsk\<close> holds for null and for the empty string.
\<close>

definition ask_tokens :: "string \<Rightarrow> string list" where
  "ask_tokens latestAsk =
     take 8 (filter (\<lambda>token. length token \<ge> 5) (split_non_alnum (toLowerCase latestAsk)))"

definition hasAskOverlap :: "string \<Rightarrow> string option \<Rightarrow> bool" where
  "hasAskOverlap summary latestAsk =
     (case latestAsk of
        None \<Rightarrow> True
      | Some ask \<Rightarrow>
          if ask = [] then True
          else let normalizedSummary = toLowerCase summary;
                   tokens = ask_tokens ask
               in if tokens = [] then True
                  else list_ex (\<lambda>token. str_includes normalizedSummary token) tokens)"

record audit_params =
  a_summary :: string
  a_identifiers :: "string list"
  a_latestAsk :: "string option"

record audit_result =
  ok :: bool
  reasons :: "string list"

definition auditSummaryQuality :: "audit_params \<Rightarrow> audit_result" where
  "auditSummaryQuality params =
     (let reasons = concat (map (\<lambda>section.
                       if \<not> str_includes (a_summary params) section
                       then [''missing_section:'' @ section] else [])
                     REQUIRED_SUMMARY_SECTIONS);
          missingIdentifiers =
            filter (\<lambda>ident. \<not> str_includes (a_summary params) ident) (a_identifiers params);
          reasons = (if length missingIdentifiers > 0
                     then reasons @ [''missing_identifiers:'' @ join '','' (take 3 missingIdentifiers)]
                     else reasons);
          reasons = (if \<not> hasAskOverlap (a_summary params) (a_latestAsk params)
                     then reasons @ [''latest_user_ask_not_reflected'']
                     else reasons)
      in \<lparr>ok = (length reasons = 0), reasons = reasons\<rparr>)"

text \<open>
  The vocabulary of the specification of the audit, written from its words and not from
  the code. A lower-case alphanumeric character is one of the 36 characters listed. The
  lower-case alphanumeric tokens of a string are its maximal runs of such characters,
  from left to right: skip what is not alphanumeric, take characters while they are
  alphanumeric, go on with the rest. Lower-casing replaces a capital letter by the small
  letter that the table gives for it (A-Z and the capitals of Latin-1) and leaves every
  other character as it is.
\<close>

definition lower_alnum :: "char \<Rightarrow> bool" where
  "lower_alnum c \<longleftrightarrow> c \<in> set ''abcdefghijklmnopqrstuvwxyz0123456789''"

definition letter_case_table :: "(char \<times> char) list" where
  "letter_case_table =
     zip ''ABCDEFGHIJKLMNOPQRSTUVWXYZ'' ''abcdefghijklmnopqrstuvwxyz''
     @ zip [CHR 0xC0, CHR 0xC1, CHR 0xC2, CHR 0xC3, CHR 0xC4, CHR 0xC5, CHR 0xC6, CHR 0xC7,
            CHR 0xC8, CHR 0xC9, CHR 0xCA, CHR 0xCB, CHR 0xCC, CHR 0xCD, CHR 0xCE, CHR 0xCF,
            CHR 0xD0, CHR 0xD1, CHR 0xD2, CHR 0xD3, CHR 0xD4, CHR 0xD5, CHR 0xD6,
            CHR 0xD8, CHR 0xD9, CHR 0xDA, CHR 0xDB, CHR 0xDC, CHR 0xDD, CHR 0xDE]
           [CHR 0xE0, CHR 0xE1, CHR 0xE2, CHR 0xE3, CHR 0xE4, CHR 0xE5, CHR 0xE6, CHR 0xE7,
            CHR 0xE8, CHR 0xE9, CHR 0xEA, CHR 0xEB, CHR 0xEC, CHR 0xED, CHR 0xEE, CHR 0xEF,
            CHR 0xF0, CHR 0xF1, CHR 0xF2, CHR 0xF3, CHR 0xF4, CHR 0xF5, CHR 0xF6,
            CHR 0xF8, CHR 0xF9, CHR 0xFA, CHR 0xFB, CHR 0xFC, CHR 0xFD, CHR 0xFE]"

definition lowercased :: "string \<Rightarrow> string" where
  "lowercased s = map (\<lambda>c. case map_of letter_case_table c of Some l \<Rightarrow> l | None \<Rightarrow> c) s"

function alnum_tokens :: "string \<Rightarrow> string list" where
  "alnum_tokens s =
     (case dropWhile (\<lambda>c. \<not> lower_alnum c) s of
        [] \<Rightarrow> []
      | c # cs \<Rightarrow> takeWhile lower_alnum (c # cs) # alnum_tokens (dropWhile lower_alnum (c # cs)))"
  by pat_completeness auto
termination
proof (relation "measure length")
  show "wf (measure length)" by simp
next
  fix s :: string and c cs
  assume a: "dropWhile (\<lambda>c. \<not> lower_alnum c) s = c # cs"
  have "lower_alnum c" using hd_dropWhile[of "\<lambda>c. \<not> lower_alnum c" s] a by simp
  then have "length (dropWhile lower_alnum (c # cs)) \<le> length cs"
    by (simp add: length_dropWhile_le)
  moreover have "length (c # cs) \<le> length s"
    using length_dropWhile_le[of "\<lambda>c. \<not> lower_alnum c" s] a by simp
  ultimately show "(dropWhile lower_alnum (c # cs), s) \<in> measure length" by simp
qed

text \<open>
  Three concrete audits on one summary with every section and the identifier. The ask
  of the first has one token of five characters or more, \<open>indexing\<close>, which the summary
  holds with a capital letter; no token of the ask of the second is in the summary; the
  third summary has no structure.
\<close>

definition audit_example_summary :: string where
  "audit_example_summary =
     ''## Decisions ## Open TODOs ## Constraints/Rules ## Pending user asks ## Exact identifiers /tmp/x.log: memory Indexing''"

definition audit_example_ok :: audit_params where
  "audit_example_ok =
     \<lparr>a_summary = audit_example_summary,
      a_identifiers = [''/tmp/x.log''],
      a_latestAsk = Some ''Fix the INDEXING, now''\<rparr>"

definition audit_example_ask :: audit_params where
  "audit_example_ask =
     \<lparr>a_summary = audit_example_summary,
      a_identifiers = [''/tmp/x.log''],
      a_latestAsk = Some ''Please restart the gateway''\<rparr>"

definition audit_example_bad :: audit_params where
  "audit_example_bad =
     \<lparr>a_summary = ''Short summary without structure'',
      a_identifiers = [''abc12345''],
      a_latestAsk = Some ''Need a status update''\<rparr>"


text \<open>
  The character classes of the regular expressions of this file (no \<open>i\<close> or \<open>u\<close> flag):
  \<open>\d\<close>, \<open>[A-Fa-f0-9]\<close>, \<open>[A-Za-z]\<close>, \<open>\w\<close>, \<open>\s\<close> (white space and line terminators
  among the code units below 256), and the bracket classes of the identifier pattern.
\<close>

definition is_digit :: "char \<Rightarrow> bool" where
  "is_digit c = in_range CHR ''0'' CHR ''9'' c"

definition is_hex :: "char \<Rightarrow> bool" where
  "is_hex c = (in_range CHR ''A'' CHR ''F'' c \<or> in_range CHR ''a'' CHR ''f'' c \<or> is_digit c)"

definition is_letter :: "char \<Rightarrow> bool" where
  "is_letter c = (in_range CHR ''A'' CHR ''Z'' c \<or> in_range CHR ''a'' CHR ''z'' c)"

definition is_word :: "char \<Rightarrow> bool" where
  "is_word c = (is_letter c \<or> is_digit c \<or> c = CHR ''_'')"

definition is_space :: "char \<Rightarrow> bool" where
  "is_space c = ((of_char c :: nat) \<in> {9, 10, 11, 12, 13, 32, 160})"

text \<open>\<open>[\w./-]\<close>, \<open>[\w\\.-]\<close>, \<open>[A-Za-z0-9._-]\<close> and \<open>[A-Za-z0-9._/-]\<close>.\<close>

definition is_path_char :: "char \<Rightarrow> bool" where
  "is_path_char c = (is_word c \<or> c = CHR ''.'' \<or> c = CHR ''/'' \<or> c = CHR ''-'')"

definition is_winpath_char :: "char \<Rightarrow> bool" where
  "is_winpath_char c = (is_word c \<or> c = CHR 0x5C \<or> c = CHR ''.'' \<or> c = CHR ''-'')"

definition is_host_char :: "char \<Rightarrow> bool" where
  "is_host_char c =
     (is_letter c \<or> is_digit c \<or> c = CHR ''.'' \<or> c = CHR ''_'' \<or> c = CHR ''-'')"

definition is_hostpath_char :: "char \<Rightarrow> bool" where
  "is_hostpath_char c = (is_host_char c \<or> c = CHR ''/'')"

text \<open>
  The six alternatives of the pattern in \<open>extractOpaqueIdentifiers\<close>, each tried at the
  start of the rest \<open>s\<close> of the text; the result is the matched string. Quantifiers are
  greedy, and where a shorter repetition cannot lead to a match the longest one is the
  only candidate.

  \<open>[A-Fa-f0-9]{8,}\<close>:
\<close>

definition match_hex :: "string \<Rightarrow> string option" where
  "match_hex s =
     (let run = takeWhile is_hex s in if length run \<ge> 8 then Some run else None)"

text \<open>\<open>https?:\/\/\S+\<close>:\<close>

definition match_url :: "string \<Rightarrow> string option" where
  "match_url s =
     (if prefix ''http'' s then
        let r = drop 4 s;
            scheme = (if r \<noteq> [] \<and> hd r = CHR ''s'' then ''https'' else ''http'');
            r = drop (length scheme) s
        in if prefix ''://'' r then
             let run = takeWhile (\<lambda>c. \<not> is_space c) (drop 3 r)
             in if run \<noteq> [] then Some (scheme @ ''://'' @ run) else None
           else None
      else None)"

text \<open>\<open>\/[\w./-]+\<close>:\<close>

definition match_path :: "string \<Rightarrow> string option" where
  "match_path s =
     (case s of
        [] \<Rightarrow> None
      | c # r \<Rightarrow>
          if c = CHR ''/'' then
            let run = takeWhile is_path_char r
            in if run \<noteq> [] then Some (c # run) else None
          else None)"

text \<open>\<open>[A-Za-z]:\\[\w\\.-]+\<close>:\<close>

definition match_winpath :: "string \<Rightarrow> string option" where
  "match_winpath s =
     (case s of
        c # c1 # c2 # r \<Rightarrow>
          if is_letter c \<and> c1 = CHR '':'' \<and> c2 = CHR 0x5C then
            let run = takeWhile is_winpath_char r
            in if run \<noteq> [] then Some (c # c1 # c2 # run) else None
          else None
      | _ \<Rightarrow> None)"

text \<open>
  \<open>[A-Za-z0-9._-]+\.[A-Za-z0-9._/-]+:\d{1,5}\<close>: the first class is part of the second,
  and \<open>:\<close> is in neither, so the second repetition must end where the run \<open>b\<close> of
  second-class characters from the start ends; the match is found when a dot stands at
  some position \<open>k \<ge> 1\<close> inside the run \<open>a\<close> of first-class characters with at least one
  character of \<open>b\<close> after it, and \<open>b\<close> is followed by a colon and a digit. Up to five
  digits are taken.
\<close>

definition match_hostport :: "string \<Rightarrow> string option" where
  "match_hostport s =
     (let a = takeWhile is_host_char s;
          b = takeWhile is_hostpath_char s;
          rest = drop (length b) s
      in if list_ex (\<lambda>k. s ! k = CHR ''.'') [1..<min (length a) (length b - 1)] then
           (case rest of
              [] \<Rightarrow> None
            | c # r \<Rightarrow>
                let digits = take 5 (takeWhile is_digit r)
                in if c = CHR '':'' \<and> digits \<noteq> [] then Some (b @ c # digits) else None)
         else None)"

text \<open>
  \<open>\b\d{6,}\b\<close>: \<open>prev\<close> is the character before the position, if any. A word boundary
  inside a run of digits does not exist, so the whole run is the only candidate.
\<close>

definition match_digits :: "char option \<Rightarrow> string \<Rightarrow> string option" where
  "match_digits prev s =
     (let run = takeWhile is_digit s;
          rest = drop (length run) s
      in if (case prev of None \<Rightarrow> True | Some p \<Rightarrow> \<not> is_word p)
            \<and> length run \<ge> 6
            \<and> (rest = [] \<or> \<not> is_word (hd rest))
         then Some run else None)"

text \<open>The alternation tries the alternatives from left to right.\<close>

fun first_some :: "'a option list \<Rightarrow> 'a option" where
  "first_some [] = None"
| "first_some (None # xs) = first_some xs"
| "first_some (Some y # xs) = Some y"

definition match_at :: "char option \<Rightarrow> string \<Rightarrow> string option" where
  "match_at prev s =
     first_some [match_hex s, match_url s, match_path s, match_winpath s,
                 match_hostport s, match_digits prev s]"

text \<open>
  \<open>text.match(/.../g)\<close>: the matches from left to right, the search resuming after each
  match. \<open>skip\<close> counts the characters of the last match that are still to be passed
  over; \<open>prev\<close> is the character before the current position.
\<close>

fun match_all :: "char option \<Rightarrow> nat \<Rightarrow> string \<Rightarrow> string list" where
  "match_all prev skip [] = []"
| "match_all prev skip (c # cs) =
     (if skip > 0 then match_all (Some c) (skip - 1) cs
      else case match_at prev (c # cs) of
             Some m \<Rightarrow> m # match_all (Some c) (length m - 1) cs
           | None \<Rightarrow> match_all (Some c) 0 cs)"

text \<open>
  \<open>sanitizeExtractedIdentifier\<close>: \<open>trim\<close>, then the leading run of \<open>("'`[{<\<close> and the
  trailing run of \<open>)]"'`,;:.!?<>\<close> are removed.
\<close>

definition leading_wrappers :: "char list" where
  "leading_wrappers =
     [CHR ''('', CHR 0x22, CHR 0x27, CHR 0x60, CHR ''['', CHR ''{'', CHR ''<'']"

definition trailing_wrappers :: "char list" where
  "trailing_wrappers =
     [CHR '')'', CHR '']'', CHR 0x22, CHR 0x27, CHR 0x60, CHR '','', CHR '';'', CHR '':'',
      CHR ''.'', CHR ''!'', CHR ''?'', CHR ''<'', CHR ''>'']"

definition drop_trailing :: "(char \<Rightarrow> bool) \<Rightarrow> string \<Rightarrow> string" where
  "drop_trailing p s = rev (dropWhile p (rev s))"

definition trim :: "string \<Rightarrow> string" where
  "trim s = drop_trailing is_space (dropWhile is_space s)"

definition sanitizeExtractedIdentifier :: "string \<Rightarrow> string" where
  "sanitizeExtractedIdentifier v =
     drop_trailing (\<lambda>c. c \<in> set trailing_wrappers)
       (dropWhile (\<lambda>c. c \<in> set leading_wrappers) (trim v))"

text \<open>\<open>Array.from(new Set(xs))\<close>: the elements of \<open>xs\<close> in the order of their first occurrence.\<close>

definition array_from_set :: "'a list \<Rightarrow> 'a list" where
  "array_from_set xs = foldl add_key [] xs"

definition candidate_identifiers :: "string \<Rightarrow> string list" where
  "candidate_identifiers t =
     filter (\<lambda>v. length v \<ge> 4) (map sanitizeExtractedIdentifier (match_all None 0 t))"

definition extractOpaqueIdentifiers :: "string \<Rightarrow> string list" where
  "extractOpaqueIdentifiers t =
     take MAX_EXTRACTED_IDENTIFIERS (array_from_set (candidate_identifiers t))"

text \<open>
  An entry that is safe from being a short bare integer: sanitizing leaves the match as it
  is, and the match has six characters or a colon; or the match starts with a character
  that is neither a digit nor removed by sanitizing.
\<close>

definition kept_whole :: "string \<Rightarrow> bool" where
  "kept_whole m = (sanitizeExtractedIdentifier m = m \<and> (length m \<ge> 6 \<or> CHR '':'' \<in> set m))"

definition plain_head :: "string \<Rightarrow> bool" where
  "plain_head m =
     (m \<noteq> [] \<and> \<not> is_digit (hd m) \<and> \<not> is_space (hd m) \<and> hd m \<notin> set leading_wrappers)"

text \<open>A concrete text with short numbers, a ticket number, a URL and a path named twice.\<close>

definition identifiers_example :: string where
  "identifiers_example =
     ''In 2026 port 18789 ticket 123456 (https://a.io/b), /tmp/x.log. /tmp/x.log''"


section \<open>Compaction safeguard: formatting helpers\<close>






definition DEFAULT_QUALITY_GUARD_MAX_RETRIES :: real where
  "DEFAULT_QUALITY_GUARD_MAX_RETRIES = 1"

definition MAX_QUALITY_GUARD_MAX_RETRIES :: int where
  "MAX_QUALITY_GUARD_MAX_RETRIES = 3"


definition resolveQualityGuardMaxRetries :: "real option \<Rightarrow> int" where
  "resolveQualityGuardMaxRetries v =
     min MAX_QUALITY_GUARD_MAX_RETRIES (clampNonNegativeInt v DEFAULT_QUALITY_GUARD_MAX_RETRIES)"













record file_lists =
  readFiles :: "string list"
  modifiedFiles :: "string list"








section \<open>Compaction safeguard: the \<open>session_before_compact\<close> handler\<close>

text \<open>
  A thrown exception (a rejected promise) is a value: a computation that can throw
  returns \<open>error + 'a\<close>, and \<open>and_then\<close> sequences two of them as statements in a
  \<open>try\<close> block are sequenced.
\<close>

datatype error = Cancelled | ModelCallFailed string | OtherError string

definition and_then :: "error + 'a \<Rightarrow> ('a \<Rightarrow> error + 'b) \<Rightarrow> error + 'b" where
  "and_then m f = (case m of Inl e \<Rightarrow> Inl e | Inr v \<Rightarrow> f v)"



record CompactionArtifact =
  summary :: string
  firstKeptEntryId :: string
  tokensBefore :: "real option"
  compaction_details :: file_lists









text \<open>The values resolved at the start of the \<open>try\<close> block.\<close>

record knobs =
  k_model :: string
  k_apiKey :: string
  k_contextWindowTokens :: real
  k_recentTurnsPreserve :: int
  k_qualityGuardEnabled :: bool
  k_qualityGuardMaxRetries :: int
  k_maxHistoryShare :: real


















section \<open>Dynamic threshold: properties\<close>

lemma calculateDynamicThreshold_le_top:
  "15 / 100 \<le> t \<Longrightarrow> calculateDynamicThreshold t \<le> t"
  by (simp add: calculateDynamicThreshold_def)

text \<open>
  C4. For every top score the threshold is at least 0.15; it is half the top score from
  0.7 upwards, six tenths of it from 0.3 up to (excluding) 0.7, and 0.15 below 0.3, so
  also for every negative top score.
\<close>

theorem calculateDynamicThreshold_tiers:
  "calculateDynamicThreshold topScore \<ge> 15 / 100
   \<and> (topScore \<ge> 7 / 10 \<longrightarrow> calculateDynamicThreshold topScore = (5 / 10) * topScore)
   \<and> (3 / 10 \<le> topScore \<and> topScore < 7 / 10 \<longrightarrow> calculateDynamicThreshold topScore = (6 / 10) * topScore)
   \<and> (topScore < 3 / 10 \<longrightarrow> calculateDynamicThreshold topScore = 15 / 100)
   \<and> (topScore < 0 \<longrightarrow> calculateDynamicThreshold topScore = 15 / 100)"
  by (simp add: calculateDynamicThreshold_def)

theorem calculateDynamicThreshold_tiers_witness:
  "calculateDynamicThreshold (8 / 10) = 4 / 10
   \<and> calculateDynamicThreshold (5 / 10) = 3 / 10
   \<and> calculateDynamicThreshold (2 / 10) = 15 / 100
   \<and> calculateDynamicThreshold (- 1) = 15 / 100"
  using calculateDynamicThreshold_tiers [of "8 / 10"]
    calculateDynamicThreshold_tiers [of "5 / 10"]
    calculateDynamicThreshold_tiers [of "2 / 10"]
    calculateDynamicThreshold_tiers [of "- 1"]
  by simp

text \<open>
  C10. For a non-empty list in descending score order whose first score is at least 0.15,
  the enabled filter returns a non-empty list with the same first element; the output is
  the input filtered by \<open>score \<ge> calculateDynamicThreshold (score of the first)\<close>: a
  subsequence of the input holding exactly those records, as they are.
\<close>

theorem applyDynamicThreshold_keeps_top:
  assumes "results \<noteq> []"
    and "sorted_wrt (\<lambda>a b. score a \<ge> score b) results"
    and "score (hd results) \<ge> 15 / 100"
  shows "applyDynamicThreshold results True \<noteq> []
    \<and> hd (applyDynamicThreshold results True) = hd results
    \<and> applyDynamicThreshold results True
        = filter (\<lambda>r. score r \<ge> calculateDynamicThreshold (score (hd results))) results
    \<and> subseq (applyDynamicThreshold results True) results
    \<and> (\<forall>r. r \<in> set (applyDynamicThreshold results True)
          \<longleftrightarrow> r \<in> set results \<and> score r \<ge> calculateDynamicThreshold (score (hd results)))"
proof -
  let ?t = "calculateDynamicThreshold (score (hd results))"
  have le: "?t \<le> score (hd results)"
    using assms(3) by (rule calculateDynamicThreshold_le_top)
  have eq: "applyDynamicThreshold results True = filter (\<lambda>r. score r \<ge> ?t) results"
    using assms(1) by (simp add: Let_def)
  have hd_in: "hd results \<in> set results" using assms(1) by simp
  have ne: "filter (\<lambda>r. score r \<ge> ?t) results \<noteq> []"
    using hd_in le by (auto simp: filter_empty_conv)
  have hd_eq: "hd (filter (\<lambda>r. score r \<ge> ?t) results) = hd results"
    using assms(1) le by (cases results) auto
  have sub: "subseq (filter (\<lambda>r. score r \<ge> ?t) results) results"
    by simp
  show ?thesis unfolding eq using ne hd_eq sub by auto
qed

theorem applyDynamicThreshold_keeps_top_witness:
  "applyDynamicThreshold [\<lparr>score = 8 / 10\<rparr>, \<lparr>score = 5 / 10\<rparr>, \<lparr>score = 1 / 10\<rparr>] True \<noteq> []
   \<and> hd (applyDynamicThreshold [\<lparr>score = 8 / 10\<rparr>, \<lparr>score = 5 / 10\<rparr>, \<lparr>score = 1 / 10\<rparr>] True)
       = \<lparr>score = 8 / 10\<rparr>
   \<and> applyDynamicThreshold [\<lparr>score = 8 / 10\<rparr>, \<lparr>score = 5 / 10\<rparr>, \<lparr>score = 1 / 10\<rparr>] True
       = [\<lparr>score = 8 / 10\<rparr>, \<lparr>score = 5 / 10\<rparr>]"
  using applyDynamicThreshold_keeps_top
    [of "[\<lparr>score = 8 / 10\<rparr>, \<lparr>score = 5 / 10\<rparr>, \<lparr>score = 1 / 10\<rparr>]"]
  by (simp add: calculateDynamicThreshold_def)

text \<open>
  C5. On a list in descending score order the enabled filter is idempotent.
\<close>

theorem applyDynamicThreshold_idempotent:
  fixes results :: "'a scored_scheme list"
  assumes "sorted_wrt (\<lambda>a b. score a \<ge> score b) results"
  shows "applyDynamicThreshold (applyDynamicThreshold results True) True
       = applyDynamicThreshold results True"
proof (cases results)
  case Nil then show ?thesis by simp
next
  case (Cons x xs)
  show ?thesis
  proof (cases "score x \<ge> 15 / 100")
    case True
    then have le: "calculateDynamicThreshold (score x) \<le> score x"
      by (simp add: calculateDynamicThreshold_le_top)
    then show ?thesis by (simp add: Cons Let_def)
  next
    case False
    then have thr: "calculateDynamicThreshold (score x) = 15 / 100"
      by (simp add: calculateDynamicThreshold_def)
    have "\<forall>y \<in> set xs. score y \<le> score x" using assms Cons by auto
    then have "filter (\<lambda>r. score r \<ge> calculateDynamicThreshold (score x)) (x # xs) = []"
      unfolding thr using False by (auto simp: filter_empty_conv)
    then have "applyDynamicThreshold results True = []"
      using Cons by (simp add: Let_def del: filter.simps)
    then show ?thesis by simp
  qed
qed

theorem applyDynamicThreshold_idempotent_witness:
  "sorted_wrt (\<lambda>a b. score a \<ge> score b)
     [\<lparr>score = 2 / 10\<rparr>, \<lparr>score = 15 / 100\<rparr>, \<lparr>score = 14 / 100\<rparr>, \<lparr>score = 1 / 10\<rparr>]
   \<and> applyDynamicThreshold (applyDynamicThreshold
        [\<lparr>score = 2 / 10\<rparr>, \<lparr>score = 15 / 100\<rparr>, \<lparr>score = 14 / 100\<rparr>, \<lparr>score = 1 / 10\<rparr>] True) True
     = [\<lparr>score = 2 / 10\<rparr>, \<lparr>score = 15 / 100\<rparr>]"
  using applyDynamicThreshold_idempotent
    [of "[\<lparr>score = 2 / 10\<rparr>, \<lparr>score = 15 / 100\<rparr>, \<lparr>score = 14 / 100\<rparr>, \<lparr>score = 1 / 10\<rparr>]"]
  by (simp add: calculateDynamicThreshold_def)

section \<open>Recency penalty: properties\<close>

text \<open>
  C3. For \<open>updatedAt \<le> now\<close>, \<open>lambda\<close> in [0,1] and \<open>windowDays \<ge> 1\<close> the penalty is
  \<open>lambda * min 1 ((now - updatedAt) / (windowDays * 86400000))\<close>; it lies in
  \<open>[0, lambda]\<close>, does not decrease when the age grows, and is \<open>lambda\<close> once the age
  reaches the window. For a missing \<open>updatedAt\<close> or one in the future it is 0.
\<close>

theorem calculateRecencyPenalty_spec:
  assumes "u \<le> now" "0 \<le> lam" "lam \<le> 1" "1 \<le> W"
  shows "calculateRecencyPenalty (Some u) now lam W = lam * min 1 ((now - u) / (W * 86400000))
    \<and> 0 \<le> calculateRecencyPenalty (Some u) now lam W
    \<and> calculateRecencyPenalty (Some u) now lam W \<le> lam
    \<and> (\<forall>u' now'. u' \<le> now' \<and> now - u \<le> now' - u'
          \<longrightarrow> calculateRecencyPenalty (Some u) now lam W \<le> calculateRecencyPenalty (Some u') now' lam W)
    \<and> (now - u \<ge> W * 86400000 \<longrightarrow> calculateRecencyPenalty (Some u) now lam W = lam)
    \<and> calculateRecencyPenalty None now lam W = 0
    \<and> (\<forall>v. v > now \<longrightarrow> calculateRecencyPenalty (Some v) now lam W = 0)"
proof -
  have Wpos: "0 < W" using assms by simp
  have eq: "\<And>v n. v \<le> n \<Longrightarrow> calculateRecencyPenalty (Some v) n lam W
        = lam * min 1 ((n - v) / (W * 86400000))"
    by (simp add: calculateRecencyPenalty_def Let_def divide_divide_eq_left mult.commute)
  have nonneg: "0 \<le> (now - u) / (W * 86400000)" using assms Wpos by simp
  have c2: "0 \<le> lam * min 1 ((now - u) / (W * 86400000))"
    using assms nonneg by (simp add: min_def)
  have c3: "lam * min 1 ((now - u) / (W * 86400000)) \<le> lam"
    using assms by (simp add: mult_left_le)
  have c4: "\<And>u' now'. u' \<le> now' \<Longrightarrow> now - u \<le> now' - u' \<Longrightarrow>
      lam * min 1 ((now - u) / (W * 86400000)) \<le> lam * min 1 ((now' - u') / (W * 86400000))"
  proof -
    fix u' now' :: real assume "u' \<le> now'" "now - u \<le> now' - u'"
    then have "(now - u) / (W * 86400000) \<le> (now' - u') / (W * 86400000)"
      using Wpos by (simp add: divide_right_mono)
    then have "min 1 ((now - u) / (W * 86400000)) \<le> min 1 ((now' - u') / (W * 86400000))"
      by (simp add: min_def)
    then show "lam * min 1 ((now - u) / (W * 86400000)) \<le> lam * min 1 ((now' - u') / (W * 86400000))"
      using assms(2) by (rule mult_left_mono)
  qed
  have c5: "now - u \<ge> W * 86400000 \<Longrightarrow> lam * min 1 ((now - u) / (W * 86400000)) = lam"
  proof -
    assume "now - u \<ge> W * 86400000"
    then have "1 \<le> (now - u) / (W * 86400000)" using Wpos by (simp add: le_divide_eq)
    then show ?thesis by (simp add: min_def)
  qed
  have c6: "calculateRecencyPenalty None now lam W = 0"
    by (simp add: calculateRecencyPenalty_def)
  have c7: "\<And>v. v > now \<Longrightarrow> calculateRecencyPenalty (Some v) now lam W = 0"
    by (simp add: calculateRecencyPenalty_def)
  show ?thesis using eq[OF assms(1)] c2 c3 c4 c5 c6 c7 eq by auto
qed

theorem calculateRecencyPenalty_spec_witness:
  "(0::real) \<le> 604800000 \<and> (0::real) \<le> 8 / 100 \<and> (8 / 100 :: real) \<le> 1 \<and> (1::real) \<le> 14
   \<and> calculateRecencyPenalty (Some 0) 604800000 (8 / 100) 14 = 4 / 100
   \<and> calculateRecencyPenalty (Some 0) 604800000 (8 / 100) 14
       \<le> calculateRecencyPenalty (Some 0) 1209600000 (8 / 100) 14
   \<and> calculateRecencyPenalty (Some 0) 1209600000 (8 / 100) 14 = 8 / 100
   \<and> calculateRecencyPenalty None 604800000 (8 / 100) 14 = 0
   \<and> calculateRecencyPenalty (Some 604800001) 604800000 (8 / 100) 14 = 0"
  using calculateRecencyPenalty_spec [of 0 604800000 "8 / 100" 14]
    calculateRecencyPenalty_spec [of 0 1209600000 "8 / 100" 14]
  by (simp add: calculateRecencyPenalty_def)


section \<open>Hybrid merge: properties\<close>

lemma set_firstOccurrences [simp]: "set (firstOccurrences xs) = set xs"
  by (induction xs) auto

lemma distinct_firstOccurrences [simp]: "distinct (firstOccurrences xs)"
  by (induction xs) auto

lemma keys_map_set: "map fst (map_set m k v) = add_key (map fst m) k"
  by (induction m) (force simp: add_key_def)+

lemma map_of_map_set: "map_of (map_set m k v) = (map_of m)(k \<mapsto> v)"
  by (induction m) (auto simp: fun_eq_iff)

lemma foldl_add_key:
  "foldl add_key ks xs = ks @ filter (\<lambda>y. y \<notin> set ks) (firstOccurrences xs)"
proof (induction xs arbitrary: ks)
  case Nil
  then show ?case by simp
next
  case (Cons x xs)
  show ?case
  proof (cases "x \<in> set ks")
    case True
    then have "filter (\<lambda>y. y \<notin> set ks) (filter (\<lambda>y. y \<noteq> x) (firstOccurrences xs))
             = filter (\<lambda>y. y \<notin> set ks) (firstOccurrences xs)"
      by (auto intro: filter_cong)
    then show ?thesis using True Cons[of ks] by (simp add: add_key_def)
  next
    case False
    have "filter (\<lambda>y. y \<notin> set (ks @ [x])) (firstOccurrences xs)
        = filter (\<lambda>y. y \<notin> set ks) (filter (\<lambda>y. y \<noteq> x) (firstOccurrences xs))"
      by (auto intro: filter_cong)
    then show ?thesis using False Cons[of "ks @ [x]"] by (simp add: add_key_def)
  qed
qed

lemma keys_vector_step: "map fst (vector_step m r) = add_key (map fst m) (v_id r)"
  by (simp add: vector_step_def keys_map_set)

lemma keys_keyword_step: "map fst (keyword_step m r) = add_key (map fst m) (k_id r)"
  by (simp add: keyword_step_def keys_map_set split: option.splits)

lemma keys_foldl_vector:
  "map fst (foldl vector_step m vs) = foldl add_key (map fst m) (map v_id vs)"
  by (induction vs arbitrary: m) (simp_all add: keys_vector_step)

lemma keys_foldl_keyword:
  "map fst (foldl keyword_step m ks) = foldl add_key (map fst m) (map k_id ks)"
  by (induction ks arbitrary: m) (simp_all add: keys_keyword_step)

lemma firstOccurrences_foldl: "firstOccurrences xs = foldl add_key [] xs"
  by (simp add: foldl_add_key)

lemma keys_merge:
  "map fst (foldl keyword_step (foldl vector_step [] vs) ks)
     = firstOccurrences (map v_id vs @ map k_id ks)"
  by (simp add: keys_foldl_keyword keys_foldl_vector firstOccurrences_foldl)

text \<open>What the map holds after the vector loop.\<close>

lemma scores_vector_step:
  "vscore_of (map_of (vector_step m r) i)
     = (if v_id r = i then vectorScore r else vscore_of (map_of m i))"
  "tscore_of (map_of (vector_step m r) i)
     = (if v_id r = i then 0 else tscore_of (map_of m i))"
  by (auto simp: vector_step_def map_of_map_set vscore_of_def tscore_of_def)

lemma scores_foldl_vector:
  "vscore_of (map_of (foldl vector_step [] vs) i) = lastScoreOr0 v_id vectorScore vs i"
  "tscore_of (map_of (foldl vector_step [] vs) i) = 0"
proof (induction vs rule: rev_induct)
  case Nil
  { case 1 show ?case by (simp add: vscore_of_def lastScoreOr0_def) }
  { case 2 show ?case by (simp add: tscore_of_def) }
next
  case (snoc r vs)
  { case 1 show ?case using snoc(1) by (simp add: scores_vector_step lastScoreOr0_def) }
  { case 2 show ?case using snoc(2) by (simp add: scores_vector_step) }
qed

lemma scores_keyword_step:
  "vscore_of (map_of (keyword_step m r) i) = vscore_of (map_of m i)"
  "tscore_of (map_of (keyword_step m r) i)
     = (if k_id r = i then textScore r else tscore_of (map_of m i))"
  by (auto simp: keyword_step_def map_get_def map_of_map_set vscore_of_def tscore_of_def
      split: option.splits)

lemma scores_foldl_keyword:
  "vscore_of (map_of (foldl keyword_step m ks) i) = vscore_of (map_of m i)"
  "tscore_of (map_of (foldl keyword_step m ks) i)
     = (let occ = filter (\<lambda>r. k_id r = i) ks
        in if occ = [] then tscore_of (map_of m i) else textScore (last occ))"
proof (induction ks rule: rev_induct)
  case Nil
  { case 1 show ?case by simp }
  { case 2 show ?case by simp }
next
  case (snoc r ks)
  { case 1 show ?case using snoc(1) by (simp add: scores_keyword_step) }
  { case 2 show ?case using snoc(2) by (simp add: scores_keyword_step Let_def) }
qed

lemma scores_merge:
  "vscore_of (map_of (foldl keyword_step (foldl vector_step [] vs) ks) i)
     = lastScoreOr0 v_id vectorScore vs i"
  "tscore_of (map_of (foldl keyword_step (foldl vector_step [] vs) ks) i)
     = lastScoreOr0 k_id textScore ks i"
  by (simp_all add: scores_foldl_keyword scores_foldl_vector lastScoreOr0_def Let_def)

lemma values_by_keys:
  "distinct (map fst m) \<Longrightarrow> map snd m = map (\<lambda>k. the (map_of m k)) (map fst m)"
proof (induction m)
  case Nil
  then show ?case by simp
next
  case (Cons p m)
  have "\<forall>k \<in> set (map fst m). k \<noteq> fst p" using Cons.prems by force
  then have "map (\<lambda>k. the (map_of (p # m) k)) (map fst m) = map (\<lambda>k. the (map_of m k)) (map fst m)"
    by (cases p) (simp del: map_map)
  then show ?case using Cons by (cases p) (simp del: map_map)
qed

lemma score_merged_of:
  "score (merged_of vw tw e) = vw * e_vectorScore e + tw * e_textScore e"
  by (simp add: merged_of_def Let_def)

lemma merged_scores:
  fixes params
  defines "byId \<equiv> foldl keyword_step (foldl vector_step [] (vector params)) (keyword params)"
  shows "map score (map (merged_of (vectorWeight params) (textWeight params)) (map_values byId))
       = map (hybridScore params) (insertionOrder params)"
proof -
  have keys: "map fst byId = insertionOrder params"
    unfolding byId_def insertionOrder_def by (rule keys_merge)
  then have d: "distinct (map fst byId)" by (simp add: insertionOrder_def)
  have sc: "score (merged_of (vectorWeight params) (textWeight params) (the (map_of byId k)))
          = hybridScore params k" if "k \<in> set (map fst byId)" for k
  proof -
    from that obtain e where e: "map_of byId k = Some e"
      by (metis map_of_eq_None_iff not_Some_eq set_map)
    have "e_vectorScore e = vscore_of (map_of byId k)" "e_textScore e = tscore_of (map_of byId k)"
      using e by (simp_all add: vscore_of_def tscore_of_def)
    then have "e_vectorScore e = lastScoreOr0 v_id vectorScore (vector params) k"
      "e_textScore e = lastScoreOr0 k_id textScore (keyword params) k"
      unfolding byId_def by (simp_all only: scores_merge)
    then show ?thesis using e
      by (simp add: score_merged_of hybridScore_def)
  qed
  have "map score (map (merged_of (vectorWeight params) (textWeight params)) (map_values byId))
      = map (\<lambda>k. score (merged_of (vectorWeight params) (textWeight params) (the (map_of byId k))))
          (map fst byId)"
    unfolding map_values_def by (subst values_by_keys[OF d]) (simp add: comp_def)
  also have "\<dots> = map (hybridScore params) (map fst byId)"
    using sc by simp
  finally show ?thesis using keys by simp
qed

text \<open>What the map holds for one id is what the results of this id alone produce.\<close>

lemma slot_vector_step:
  "map_of (vector_step m r) i
     = (if v_id r = i then slot_insert_vector (map_of m i) r else map_of m i)"
  by (simp add: vector_step_def map_of_map_set slot_insert_vector_def)

lemma slot_keyword_step:
  "map_of (keyword_step m r) i
     = (if k_id r = i then slot_apply_keyword (map_of m i) r else map_of m i)"
  by (auto simp: keyword_step_def map_get_def map_of_map_set slot_apply_keyword_def
      split: option.splits)

lemma slot_foldl_vector:
  "map_of (foldl vector_step m vs) i
     = foldl slot_insert_vector (map_of m i) (filter (\<lambda>r. v_id r = i) vs)"
  by (induction vs arbitrary: m) (simp_all add: slot_vector_step)

lemma slot_foldl_keyword:
  "map_of (foldl keyword_step m ks) i
     = foldl slot_apply_keyword (map_of m i) (filter (\<lambda>r. k_id r = i) ks)"
  by (induction ks arbitrary: m) (simp_all add: slot_keyword_step)

lemma slot_merge:
  "map_of (foldl keyword_step (foldl vector_step [] (vector params)) (keyword params)) i
     = entry_of_id params i"
  by (simp add: slot_foldl_keyword slot_foldl_vector entry_of_id_def)

lemma merged_by_ids:
  fixes params
  defines "byId \<equiv> foldl keyword_step (foldl vector_step [] (vector params)) (keyword params)"
  shows "map Some (map (merged_of (vectorWeight params) (textWeight params)) (map_values byId))
       = map (result_of_id params) (insertionOrder params)"
proof -
  have keys: "map fst byId = insertionOrder params"
    unfolding byId_def insertionOrder_def by (rule keys_merge)
  then have d: "distinct (map fst byId)" by (simp add: insertionOrder_def)
  have ent: "Some (merged_of (vectorWeight params) (textWeight params) (the (map_of byId k)))
           = result_of_id params k" if "k \<in> set (map fst byId)" for k
  proof -
    from that obtain e where e: "map_of byId k = Some e"
      by (metis map_of_eq_None_iff not_Some_eq set_map)
    then have "entry_of_id params k = Some e"
      unfolding byId_def by (simp only: slot_merge)
    then show ?thesis using e by (simp add: result_of_id_def)
  qed
  have "map Some (map (merged_of (vectorWeight params) (textWeight params)) (map_values byId))
      = map (\<lambda>k. Some (merged_of (vectorWeight params) (textWeight params) (the (map_of byId k))))
          (map fst byId)"
    unfolding map_values_def by (subst values_by_keys[OF d]) (simp add: comp_def)
  also have "\<dots> = map (result_of_id params) (map fst byId)"
    using ent by simp
  finally show ?thesis using keys by simp
qed

lemma insort_key_eq_on:
  "f x = g x \<Longrightarrow> (\<And>y. y \<in> set ys \<Longrightarrow> f y = g y) \<Longrightarrow> insort_key f x ys = insort_key g x ys"
  by (induction ys) simp_all

lemma sort_key_eq_on:
  "(\<And>x. x \<in> set xs \<Longrightarrow> f x = g x) \<Longrightarrow> sort_key f xs = sort_key g xs"
proof (induction xs)
  case Nil
  then show ?case by simp
next
  case (Cons x xs)
  have "sort_key f xs = sort_key g xs" using Cons by simp
  moreover have "insort_key f x (sort_key g xs) = insort_key g x (sort_key g xs)"
    using Cons.prems by (intro insort_key_eq_on) simp_all
  ultimately show ?case by simp
qed

lemma insort_key_map_commute:
  "insort_key f (g x) (map g ys) = map g (insort_key (\<lambda>a. f (g a)) x ys)"
  by (induction ys) simp_all

lemma sort_key_map_commute:
  "sort_key f (map g xs) = map g (sort_key (\<lambda>a. f (g a)) xs)"
  by (induction xs) (simp_all add: insort_key_map_commute)

lemma sorted_desc_iff:
  "sorted (map (\<lambda>x. - f x) xs) = sorted_wrt (\<lambda>a b. f a \<ge> (f b :: real)) xs"
  by (induction xs) auto

text \<open>
  C2. With \<open>dynamicThreshold\<close> false or omitted, \<open>mergeHybridResults\<close> returns one entry
  per distinct id of the two inputs: the output is, entry by entry, the merged result
  \<open>result_of_id\<close> of a permutation \<open>ids\<close> of the distinct ids; the score of the entry of
  an id is \<open>vectorWeight * vectorScore + textWeight * textScore\<close> (an absent side
  contributing 0); the output is in descending order of score; and the ids of equal score
  stand in \<open>ids\<close>, hence their entries in the output, in insertion order (vector ids
  first, then keyword-only ids, each in input order).
\<close>

theorem mergeHybridResults_spec:
  assumes "dynamicThreshold params = None \<or> dynamicThreshold params = Some False"
  shows "\<exists>ids.
      mset ids = mset (insertionOrder params)
    \<and> map Some (mergeHybridResults params) = map (result_of_id params) ids
    \<and> (\<forall>i \<in> set ids. map_option score (result_of_id params i) = Some (hybridScore params i))
    \<and> map score (mergeHybridResults params) = map (hybridScore params) ids
    \<and> (\<forall>s. filter (\<lambda>i. hybridScore params i = s) ids
           = filter (\<lambda>i. hybridScore params i = s) (insertionOrder params))
    \<and> sorted_wrt (\<lambda>a b. score a \<ge> score b) (mergeHybridResults params)
    \<and> distinct (insertionOrder params)
    \<and> set (insertionOrder params) = v_id ` set (vector params) \<union> k_id ` set (keyword params)
    \<and> length (mergeHybridResults params)
        = card (v_id ` set (vector params) \<union> k_id ` set (keyword params))"
proof -
  define byId where
    "byId = foldl keyword_step (foldl vector_step [] (vector params)) (keyword params)"
  define merged where
    "merged = map (merged_of (vectorWeight params) (textWeight params)) (map_values byId)"
  define ids where "ids = sort_key (\<lambda>i. - hybridScore params i) (insertionOrder params)"
  define res where "res = (\<lambda>i. the (result_of_id params i))"
  have out: "mergeHybridResults params = sort_key (\<lambda>r. - score r) merged"
    using assms
    by (auto simp: mergeHybridResults_def Let_def sort_by_score_desc_def merged_def byId_def)
  have ms: "map score merged = map (hybridScore params) (insertionOrder params)"
    unfolding merged_def byId_def by (rule merged_scores)
  have mr: "map Some merged = map (result_of_id params) (insertionOrder params)"
    unfolding merged_def byId_def by (rule merged_by_ids)
  have len: "length merged = length (insertionOrder params)"
    using arg_cong[OF ms, of length] by simp
  have nth_r: "result_of_id params (insertionOrder params ! n) = Some (merged ! n)"
    and nth_s: "score (merged ! n) = hybridScore params (insertionOrder params ! n)"
    if "n < length (insertionOrder params)" for n
  proof -
    show "result_of_id params (insertionOrder params ! n) = Some (merged ! n)"
      using arg_cong[OF mr, of "\<lambda>xs. xs ! n"] that len by simp
    show "score (merged ! n) = hybridScore params (insertionOrder params ! n)"
      using arg_cong[OF ms, of "\<lambda>xs. xs ! n"] that len by simp
  qed
  have defined: "result_of_id params i = Some (res i)"
    and scored: "score (res i) = hybridScore params i"
    if "i \<in> set (insertionOrder params)" for i
  proof -
    from that obtain n where n: "n < length (insertionOrder params)" "insertionOrder params ! n = i"
      by (auto simp: in_set_conv_nth)
    show "result_of_id params i = Some (res i)"
      using nth_r[OF n(1)] n(2) by (simp add: res_def)
    then show "score (res i) = hybridScore params i"
      using nth_r[OF n(1)] nth_s[OF n(1)] n(2) by simp
  qed
  have "map Some merged = map Some (map res (insertionOrder params))"
    using mr defined by simp
  then have merged_res: "merged = map res (insertionOrder params)"
    by (rule iffD1[OF inj_map_eq_map[OF inj_Some]])
  have c1: "mset ids = mset (insertionOrder params)" by (simp add: ids_def)
  then have set_ids: "set ids = set (insertionOrder params)" by (metis set_mset_mset)
  have "sort_key (\<lambda>r. - score r) (map res (insertionOrder params))
      = map res (sort_key (\<lambda>i. - score (res i)) (insertionOrder params))"
    by (rule sort_key_map_commute)
  also have "sort_key (\<lambda>i. - score (res i)) (insertionOrder params) = ids"
    unfolding ids_def by (rule sort_key_eq_on) (simp add: scored)
  finally have out_ids: "mergeHybridResults params = map res ids"
    by (simp only: out merged_res)
  have c2: "map Some (mergeHybridResults params) = map (result_of_id params) ids"
    using defined set_ids by (simp add: out_ids)
  have c2a: "\<forall>i \<in> set ids. map_option score (result_of_id params i) = Some (hybridScore params i)"
    using defined scored set_ids by simp
  have c2b: "map score (mergeHybridResults params) = map (hybridScore params) ids"
    using scored set_ids by (simp add: out_ids)
  have c3: "filter (\<lambda>i. hybridScore params i = s) ids
          = filter (\<lambda>i. hybridScore params i = s) (insertionOrder params)" for s
    using sort_key_stable[of "\<lambda>i. - hybridScore params i" "- s" "insertionOrder params"]
    by (simp add: ids_def)
  have "sorted (map (\<lambda>r. - score r) (mergeHybridResults params))"
    unfolding out by (rule sorted_sort_key)
  then have c4: "sorted_wrt (\<lambda>a b. score a \<ge> score b) (mergeHybridResults params)"
    by (simp only: sorted_desc_iff)
  have c5: "distinct (insertionOrder params)" by (simp add: insertionOrder_def)
  have c6: "set (insertionOrder params) = v_id ` set (vector params) \<union> k_id ` set (keyword params)"
    by (simp add: insertionOrder_def)
  have "length (mergeHybridResults params) = length (insertionOrder params)"
    using len by (simp add: out)
  also have "\<dots> = card (set (insertionOrder params))"
    using c5 by (simp add: distinct_card)
  finally have c7: "length (mergeHybridResults params)
        = card (v_id ` set (vector params) \<union> k_id ` set (keyword params))"
    by (simp only: c6)
  show ?thesis using c1 c2 c2a c2b c3 c4 c5 c6 c7 by blast
qed

lemma merge_example_value:
  "mergeHybridResults merge_example =
     [\<lparr>score = 5 / 10, path = ''pb'', startLine = 1, endLine = 2, snippet = ''kb'', source = ''m''\<rparr>,
      \<lparr>score = 5 / 10, path = ''pc'', startLine = 1, endLine = 2, snippet = ''sc'', source = ''m''\<rparr>,
      \<lparr>score = 3 / 10, path = ''pa2'', startLine = 3, endLine = 4, snippet = ''sa2'', source = ''m''\<rparr>]"
  by (simp add: merge_example_def mergeHybridResults_def vector_step_def keyword_step_def
      map_get_def map_values_def merged_of_def sort_by_score_desc_def Let_def)

lemma merge_example_results:
  "result_of_id merge_example ''a'' =
     Some \<lparr>score = 3 / 10, path = ''pa2'', startLine = 3, endLine = 4, snippet = ''sa2'', source = ''m''\<rparr>"
  "result_of_id merge_example ''b'' =
     Some \<lparr>score = 5 / 10, path = ''pb'', startLine = 1, endLine = 2, snippet = ''kb'', source = ''m''\<rparr>"
  "result_of_id merge_example ''c'' =
     Some \<lparr>score = 5 / 10, path = ''pc'', startLine = 1, endLine = 2, snippet = ''sc'', source = ''m''\<rparr>"
  by (simp_all add: merge_example_def result_of_id_def entry_of_id_def slot_insert_vector_def
      slot_apply_keyword_def merged_of_def Let_def)

lemma merge_example_order: "insertionOrder merge_example = [''a'', ''b'', ''c'']"
  by (simp add: merge_example_def insertionOrder_def)

lemma merge_example_scores:
  "hybridScore merge_example ''a'' = 3 / 10"
  "hybridScore merge_example ''b'' = 5 / 10"
  "hybridScore merge_example ''c'' = 5 / 10"
  by (simp_all add: merge_example_def hybridScore_def lastScoreOr0_def)

text \<open>
  On the example the statement leaves one output only: the ids \<open>b\<close> and \<open>c\<close> tie at
  0.5 and \<open>b\<close> was inserted first, so the entry of \<open>b\<close> stands before the entry of
  \<open>c\<close>; \<open>a\<close>, inserted first of all, comes last with 0.3.
\<close>

theorem mergeHybridResults_spec_witness:
  "mergeHybridResults merge_example
     = [the (result_of_id merge_example ''b''), the (result_of_id merge_example ''c''),
        the (result_of_id merge_example ''a'')]
   \<and> map path (mergeHybridResults merge_example) = [''pb'', ''pc'', ''pa2'']
   \<and> map score (mergeHybridResults merge_example) = [5 / 10, 5 / 10, 3 / 10]
   \<and> insertionOrder merge_example = [''a'', ''b'', ''c'']
   \<and> map (hybridScore merge_example) [''a'', ''b'', ''c''] = [3 / 10, 5 / 10, 5 / 10]"
proof -
  have h: "dynamicThreshold merge_example = None \<or> dynamicThreshold merge_example = Some False"
    by (simp add: merge_example_def)
  from mergeHybridResults_spec [OF h] obtain ids where
    perm: "mset ids = mset (insertionOrder merge_example)"
    and res: "map Some (mergeHybridResults merge_example) = map (result_of_id merge_example) ids"
    and ties: "\<And>s. filter (\<lambda>i. hybridScore merge_example i = s) ids
                 = filter (\<lambda>i. hybridScore merge_example i = s) (insertionOrder merge_example)"
    and desc: "sorted_wrt (\<lambda>a b. score a \<ge> score b) (mergeHybridResults merge_example)"
    by blast
  have len: "length ids = 3"
    using arg_cong[OF perm, of size] by (simp add: merge_example_order)
  have set_ids: "set ids = {''a'', ''b'', ''c''}"
    using arg_cong[OF perm, of set_mset] by (simp add: merge_example_order)
  have t5: "filter (\<lambda>i. hybridScore merge_example i = 5 / 10) ids = [''b'', ''c'']"
    using ties[of "5 / 10"] by (simp add: merge_example_order merge_example_scores)
  from len have "\<exists>x y z. ids = [x, y, z]"
    by (auto simp: numeral_3_eq_3 length_Suc_conv)
  then obtain x y z where ids: "ids = [x, y, z]" by blast
  have sc: "map score (mergeHybridResults merge_example) = map (hybridScore merge_example) ids"
  proof -
    have "map (map_option score) (map Some (mergeHybridResults merge_example))
        = map (map_option score) (map (result_of_id merge_example) ids)"
      by (simp only: res)
    moreover have "\<forall>i \<in> set ids. map_option score (result_of_id merge_example i)
        = Some (hybridScore merge_example i)"
      unfolding set_ids by (simp add: merge_example_results merge_example_scores)
    ultimately have "map Some (map score (mergeHybridResults merge_example))
        = map Some (map (hybridScore merge_example) ids)"
      by (simp add: comp_def)
    then show ?thesis by (rule iffD1[OF inj_map_eq_map[OF inj_Some]])
  qed
  have "sorted_wrt (\<lambda>a b. a \<ge> b) (map score (mergeHybridResults merge_example))"
    using desc by (simp add: sorted_wrt_map)
  then have d3: "hybridScore merge_example x \<ge> hybridScore merge_example y"
    "hybridScore merge_example y \<ge> hybridScore merge_example z"
    unfolding sc ids by simp_all
  have dist: "distinct ids"
    using mset_eq_imp_distinct_iff[OF perm] by (simp add: merge_example_order)
  have ne: "x \<noteq> y" "x \<noteq> z" "y \<noteq> z"
    using dist unfolding ids by simp_all
  have mem: "x \<in> set ids" "y \<in> set ids" "z \<in> set ids"
    by (simp_all add: ids)
  have xd: "x = ''a'' \<or> x = ''b'' \<or> x = ''c''"
    and yd: "y = ''a'' \<or> y = ''b'' \<or> y = ''c''"
    and zd: "z = ''a'' \<or> z = ''b'' \<or> z = ''c''"
    using mem unfolding set_ids by simp_all
  have t5': "filter (\<lambda>i. hybridScore merge_example i = 5 / 10) [x, y, z] = [''b'', ''c'']"
    using t5 unfolding ids .
  have "x = ''b'' \<and> y = ''c'' \<and> z = ''a''"
    using xd yd zd ne d3 t5' by (elim disjE; simp add: merge_example_scores)
  then have "map Some (mergeHybridResults merge_example)
      = map (result_of_id merge_example) [''b'', ''c'', ''a'']"
    using res ids by simp
  then have first: "mergeHybridResults merge_example
     = [the (result_of_id merge_example ''b''), the (result_of_id merge_example ''c''),
        the (result_of_id merge_example ''a'')]"
    by (simp add: merge_example_results map_eq_Cons_conv)
  show ?thesis
    using first by (simp add: merge_example_results merge_example_order merge_example_scores)
qed
section \<open>Vector search with recency: properties\<close>















section \<open>Preserved recent turns: properties\<close>

lemma filter_idx_nths: "filter_idx (\<lambda>_ i. i \<in> A) xs = nths xs A"
  by (simp add: filter_idx_def nths_def case_prod_unfold)

lemma filter_idx_nths_compl: "filter_idx (\<lambda>_ i. i \<notin> A) xs = nths xs (- A)"
  by (simp add: filter_idx_def nths_def case_prod_unfold)

lemma collect_candidates_set:
  "set (collect_candidates msgs n k cand)
     \<subseteq> set cand \<union> {i. i < k \<and> is_turn_role (role (msgs ! i))}"
proof (induction msgs n k cand rule: collect_candidates.induct)
  case (1 messages n cand)
  then show ?case by simp
next
  case (2 messages n i cand)
  then show ?case by (auto simp: Let_def less_Suc_eq split: if_splits)
qed

lemma collect_candidates_length:
  "length cand < n \<Longrightarrow> length (collect_candidates msgs n k cand) \<le> n"
proof (induction msgs n k cand rule: collect_candidates.induct)
  case (1 messages n cand)
  then show ?case by simp
next
  case (2 messages n i cand)
  then show ?case by (auto simp: Let_def split: if_splits)
qed

lemma nths_UNIV_id: "nths xs UNIV = xs"
  by (rule nths_all) simp

text \<open>
  C9. \<open>splitPreservedRecentTurns\<close> partitions the positions of its input: for a set \<open>P\<close>
  of positions the preserved messages are the messages at \<open>P\<close> and the summarizable ones
  the messages elsewhere, both in input order. Every preserved message has role user or
  assistant. The preserved messages number at most twice the clamped turn count
  \<open>min 12 (max 0 \<lfloor>recentTurnsPreserve\<rfloor>)\<close> (0 when the value is not a finite number),
  which is at most \<open>2 * min 12 recentTurnsPreserve\<close> whenever \<open>recentTurnsPreserve \<ge> 0\<close>.
  For \<open>recentTurnsPreserve = 0\<close> the result is \<open>(messages, [])\<close>.
\<close>

theorem splitPreservedRecentTurns_partition:
  fixes msgs :: "message list" and v :: "real option"
  defines "r \<equiv> splitPreservedRecentTurns msgs v"
  defines "turns \<equiv> min 12 (clampNonNegativeInt v 0)"
  shows "(\<exists>P. summarizableMessages r = nths msgs (- P) \<and> preservedMessages r = nths msgs P)
    \<and> (\<forall>m \<in> set (preservedMessages r). role m = ''user'' \<or> role m = ''assistant'')
    \<and> int (length (preservedMessages r)) \<le> 2 * turns
    \<and> (\<forall>x. v = Some x \<and> 0 \<le> x \<longrightarrow> real (length (preservedMessages r)) \<le> 2 * min 12 x)
    \<and> (v = Some 0 \<longrightarrow> r = \<lparr>summarizableMessages = msgs, preservedMessages = []\<rparr>)"
proof -
  have turns0: "0 \<le> turns" by (simp add: turns_def clampNonNegativeInt_def Let_def)
  have trivial_case:
    "(\<exists>P. msgs = nths msgs (- P) \<and> [] = nths msgs P)"
    by (rule exI[of _ "{}"]) (simp add: nths_UNIV_id)
  have part: "(\<exists>P. summarizableMessages r = nths msgs (- P) \<and> preservedMessages r = nths msgs P)
    \<and> (\<forall>m \<in> set (preservedMessages r). role m = ''user'' \<or> role m = ''assistant'')
    \<and> int (length (preservedMessages r)) \<le> 2 * turns"
  proof (cases "turns \<le> 0")
    case True
    then have "r = \<lparr>summarizableMessages = msgs, preservedMessages = []\<rparr>"
      by (simp add: r_def turns_def splitPreservedRecentTurns_def MAX_RECENT_TURNS_PRESERVE_def Let_def)
    then show ?thesis using trivial_case turns0 by simp
  next
    case False
    define cand where "cand = collect_candidates msgs (nat (turns * 2)) (length msgs) []"
    show ?thesis
    proof (cases "cand = []")
      case True
      then have "r = \<lparr>summarizableMessages = msgs, preservedMessages = []\<rparr>"
        using False
        by (simp add: r_def turns_def splitPreservedRecentTurns_def
            MAX_RECENT_TURNS_PRESERVE_def Let_def cand_def)
      then show ?thesis using trivial_case turns0 by simp
    next
      case ne: False
      have cs: "set cand \<subseteq> {i. i < length msgs \<and> is_turn_role (role (msgs ! i))}"
        using collect_candidates_set[of msgs "nat (turns * 2)" "length msgs" "[]"]
        by (simp add: cand_def)
      have cl: "length cand \<le> nat (turns * 2)"
        unfolding cand_def using False by (intro collect_candidates_length) simp
      have roles: "\<forall>m \<in> set (nths msgs (set cand)). is_turn_role (role m)"
        using cs by (auto simp: set_nths)
      then have filt: "filter (\<lambda>msg. is_turn_role (role msg)) (nths msgs (set cand))
                     = nths msgs (set cand)"
        by (simp add: filter_id_conv)
      have r_eq: "r = \<lparr>summarizableMessages = nths msgs (- set cand),
                       preservedMessages = nths msgs (set cand)\<rparr>"
        using False ne filt unfolding cand_def turns_def
        by (simp add: r_def splitPreservedRecentTurns_def MAX_RECENT_TURNS_PRESERVE_def
            Let_def filter_idx_nths filter_idx_nths_compl)
      have "{i. i < length msgs \<and> i \<in> set cand} = set cand" using cs by auto
      then have "length (nths msgs (set cand)) = card (set cand)"
        by (simp add: length_nths)
      also have "\<dots> \<le> length cand" by (rule card_length)
      finally have len: "length (nths msgs (set cand)) \<le> nat (turns * 2)"
        using cl by simp
      have a: "\<exists>P. summarizableMessages r = nths msgs (- P) \<and> preservedMessages r = nths msgs P"
        unfolding r_eq by (rule exI[of _ "set cand"]) simp
      have b: "\<forall>m \<in> set (preservedMessages r). role m = ''user'' \<or> role m = ''assistant''"
        unfolding r_eq using roles by (simp add: is_turn_role_def)
      have c: "int (length (preservedMessages r)) \<le> 2 * turns"
        unfolding r_eq using len turns0 by simp
      show ?thesis using a b c by simp
    qed
  qed
  have bound: "real (length (preservedMessages r)) \<le> 2 * min 12 x" if "v = Some x" "0 \<le> x" for x
  proof -
    have "turns = min 12 (max 0 \<lfloor>x\<rfloor>)"
      using that by (simp add: turns_def clampNonNegativeInt_def Let_def)
    moreover have "real_of_int \<lfloor>x\<rfloor> \<le> x" by simp
    ultimately have "real_of_int turns \<le> min 12 x" using that(2) by (simp add: min_def max_def)
    moreover have "real (length (preservedMessages r)) \<le> 2 * real_of_int turns"
      using part by (metis of_int_le_iff of_int_mult of_int_numeral of_int_of_nat_eq)
    ultimately show ?thesis by linarith
  qed
  have zero: "r = \<lparr>summarizableMessages = msgs, preservedMessages = []\<rparr>" if "v = Some 0"
    using that
    by (simp add: r_def splitPreservedRecentTurns_def clampNonNegativeInt_def
        MAX_RECENT_TURNS_PRESERVE_def Let_def)
  show ?thesis using part bound zero by blast
qed

lemma split_example_value:
  "splitPreservedRecentTurns split_example (Some 1) =
     \<lparr>summarizableMessages =
        [text_message ''user'' ''older ask'', text_message ''assistant'' ''older answer'',
         text_message ''toolResult'' ''ok''],
      preservedMessages =
        [text_message ''user'' ''recent ask'', text_message ''assistant'' ''recent answer'']\<rparr>"
  by (simp add: splitPreservedRecentTurns_def split_example_def clampNonNegativeInt_def
      MAX_RECENT_TURNS_PRESERVE_def Let_def is_turn_role_def text_message_def filter_idx_def
      eval_nat_numeral)

theorem splitPreservedRecentTurns_partition_witness:
  "int (length (preservedMessages (splitPreservedRecentTurns split_example (Some 1)))) \<le> 2
   \<and> preservedMessages (splitPreservedRecentTurns split_example (Some 1))
       = [text_message ''user'' ''recent ask'', text_message ''assistant'' ''recent answer'']
   \<and> summarizableMessages (splitPreservedRecentTurns split_example (Some 1))
       = [text_message ''user'' ''older ask'', text_message ''assistant'' ''older answer'',
          text_message ''toolResult'' ''ok'']
   \<and> splitPreservedRecentTurns split_example (Some 0)
       = \<lparr>summarizableMessages = split_example, preservedMessages = []\<rparr>"
proof -
  have "int (length (preservedMessages (splitPreservedRecentTurns split_example (Some 1))))
          \<le> 2 * min 12 (clampNonNegativeInt (Some 1) 0)"
    using splitPreservedRecentTurns_partition [of split_example "Some 1"] by blast
  then have a: "int (length (preservedMessages (splitPreservedRecentTurns split_example (Some 1)))) \<le> 2"
    by (simp add: clampNonNegativeInt_def)
  have b: "splitPreservedRecentTurns split_example (Some 0)
       = \<lparr>summarizableMessages = split_example, preservedMessages = []\<rparr>"
    using splitPreservedRecentTurns_partition [of split_example "Some 0"] by blast
  show ?thesis using a b by (simp add: split_example_value)
qed

text \<open>
  The bound \<open>2 * min 12 recentTurnsPreserve\<close> does not hold for every value: a negative
  \<open>recentTurnsPreserve\<close> is clamped to 0 turns, and no list has fewer than 0 elements.
\<close>

theorem splitPreservedRecentTurns_bound_counterexample:
  "\<not> (\<forall>msgs v. real (length (preservedMessages (splitPreservedRecentTurns msgs (Some v))))
                 \<le> 2 * min 12 v)"
proof
  assume "\<forall>msgs v. real (length (preservedMessages (splitPreservedRecentTurns msgs (Some v))))
                 \<le> 2 * min 12 v"
  then have "real (length (preservedMessages (splitPreservedRecentTurns [] (Some (- 1)))))
                 \<le> 2 * min 12 (- 1)"
    by blast
  then show False
    by (simp add: splitPreservedRecentTurns_def clampNonNegativeInt_def
        MAX_RECENT_TURNS_PRESERVE_def Let_def)
qed


section \<open>Summary quality audit: properties\<close>

lemma str_includes_sublist: "str_includes s sub \<longleftrightarrow> sublist sub s"
  by (induction s) (auto simp: sublist_Cons_right)

declare alnum_tokens.simps [simp del]

text \<open>
  The code agrees with the vocabulary of the specification on every character: the
  class \<open>[a-z0-9]\<close> is the set of lower-case alphanumeric characters, and \<open>toLowerCase\<close>
  is the table.
\<close>

lemma char_classes_enum:
  "list_all (\<lambda>c. is_az09 c = lower_alnum c
               \<and> lower_char c = (case map_of letter_case_table c of Some l \<Rightarrow> l | None \<Rightarrow> c))
     (Enum.enum :: char list)"
  by code_simp

lemma is_az09_lower_alnum: "is_az09 c = lower_alnum c"
  using char_classes_enum by (simp add: list_all_iff enum_UNIV)

lemma lower_char_table:
  "lower_char c = (case map_of letter_case_table c of Some l \<Rightarrow> l | None \<Rightarrow> c)"
  using char_classes_enum by (simp add: list_all_iff enum_UNIV)

lemma toLowerCase_lowercased: "toLowerCase s = lowercased s"
  by (simp add: toLowerCase_def lowercased_def lower_char_table)

text \<open>The tokens, one character at a time.\<close>

lemma alnum_tokens_Nil [simp]: "alnum_tokens [] = []"
  by (simp add: alnum_tokens.simps)

lemma alnum_tokens_skip: "\<not> lower_alnum c \<Longrightarrow> alnum_tokens (c # cs) = alnum_tokens cs"
  by (subst alnum_tokens.simps, subst (2) alnum_tokens.simps) simp

lemma alnum_tokens_take:
  "lower_alnum c \<Longrightarrow>
     alnum_tokens (c # cs)
       = (c # takeWhile lower_alnum cs) # alnum_tokens (dropWhile lower_alnum cs)"
  by (subst alnum_tokens.simps) simp

lemma alnum_tokens_unfold:
  "alnum_tokens s
     = filter (\<lambda>t. t \<noteq> []) [takeWhile lower_alnum s] @ alnum_tokens (dropWhile lower_alnum s)"
  by (cases s) (simp_all add: alnum_tokens_take)

text \<open>
  What a token is. A string without alphanumeric character has no token; a non-empty
  run of alphanumeric characters that no alphanumeric character touches on either side
  is a token, and stands between the tokens of what precedes it and of what follows it.
  The two facts determine the tokens of every string.
\<close>

lemma alnum_tokens_none:
  "\<forall>c \<in> set s. \<not> lower_alnum c \<Longrightarrow> alnum_tokens s = []"
  by (induction s) (simp_all add: alnum_tokens_skip)

lemma alnum_tokens_run:
  "t \<noteq> [] \<Longrightarrow> \<forall>c \<in> set t. lower_alnum c \<Longrightarrow> alnum_tokens t = [t]"
  by (cases t) (simp_all add: alnum_tokens_take takeWhile_eq_all_conv[THEN iffD2]
      dropWhile_eq_Nil_conv[THEN iffD2])

lemma alnum_tokens_append_left:
  "xs = [] \<or> \<not> lower_alnum (last xs) \<Longrightarrow>
     alnum_tokens (xs @ ys) = alnum_tokens xs @ alnum_tokens ys"
proof (induction xs rule: length_induct)
  case (1 xs)
  show ?case
  proof (cases xs)
    case Nil
    then show ?thesis by simp
  next
    case (Cons c cs)
    show ?thesis
    proof (cases "lower_alnum c")
      case False
      have "alnum_tokens (cs @ ys) = alnum_tokens cs @ alnum_tokens ys"
      proof (cases "cs = []")
        case True
        then show ?thesis by simp
      next
        case nonempty: False
        then have "cs = [] \<or> \<not> lower_alnum (last cs)" using 1(2) Cons by simp
        moreover have "length cs < length xs" using Cons by simp
        ultimately show ?thesis using 1(1) by blast
      qed
      then show ?thesis using False Cons by (simp add: alnum_tokens_skip)
    next
      case True
      then have ne: "cs \<noteq> []" and lst: "\<not> lower_alnum (last cs)"
        using 1(2) Cons by (auto split: if_splits)
      then have ex: "\<exists>x \<in> set cs. \<not> lower_alnum x" using last_in_set by blast
      then obtain x where x: "x \<in> set cs" "\<not> lower_alnum x" by blast
      have tw: "takeWhile lower_alnum (cs @ ys) = takeWhile lower_alnum cs"
        using x by (simp add: takeWhile_append1)
      have dw: "dropWhile lower_alnum (cs @ ys) = dropWhile lower_alnum cs @ ys"
        using x by (simp add: dropWhile_append1)
      have dne: "dropWhile lower_alnum cs \<noteq> []"
        using ex by (simp add: dropWhile_eq_Nil_conv)
      then have "last (dropWhile lower_alnum cs) = last cs"
        by (metis append_Nil2 last_appendR takeWhile_dropWhile_id)
      then have "dropWhile lower_alnum cs = [] \<or> \<not> lower_alnum (last (dropWhile lower_alnum cs))"
        using lst by simp
      moreover have "length (dropWhile lower_alnum cs) < length xs"
        using Cons length_dropWhile_le[of lower_alnum cs] by simp
      ultimately have "alnum_tokens (dropWhile lower_alnum cs @ ys)
          = alnum_tokens (dropWhile lower_alnum cs) @ alnum_tokens ys"
        using 1(1) by blast
      then show ?thesis using True Cons tw dw by (simp add: alnum_tokens_take)
    qed
  qed
qed

lemma alnum_tokens_append_right:
  "ys = [] \<or> \<not> lower_alnum (hd ys) \<Longrightarrow>
     alnum_tokens (xs @ ys) = alnum_tokens xs @ alnum_tokens ys"
proof (induction xs rule: length_induct)
  case (1 xs)
  show ?case
  proof (cases xs)
    case Nil
    then show ?thesis by simp
  next
    case (Cons c cs)
    show ?thesis
    proof (cases "lower_alnum c")
      case False
      have "alnum_tokens (cs @ ys) = alnum_tokens cs @ alnum_tokens ys"
        using 1 Cons by simp
      then show ?thesis using False Cons by (simp add: alnum_tokens_skip)
    next
      case True
      show ?thesis
      proof (cases "\<forall>x \<in> set cs. lower_alnum x")
        case all: True
        have ty: "takeWhile lower_alnum ys = []" using 1(2) by (cases ys) auto
        have dy: "dropWhile lower_alnum ys = ys" using 1(2) by (cases ys) auto
        have tw: "takeWhile lower_alnum (cs @ ys) = cs"
          using all ty by (simp add: takeWhile_append2)
        have dw: "dropWhile lower_alnum (cs @ ys) = ys"
          using all dy by (simp add: dropWhile_append2)
        have tc: "takeWhile lower_alnum cs = cs" using all by simp
        have dc: "dropWhile lower_alnum cs = []" using all by simp
        have l: "alnum_tokens (c # cs @ ys) = (c # cs) # alnum_tokens ys"
          by (simp only: alnum_tokens_take[OF True] tw dw)
        have r: "alnum_tokens (c # cs) = [c # cs]"
          by (simp only: alnum_tokens_take[OF True] tc dc alnum_tokens_Nil)
        show ?thesis unfolding Cons using l r by simp
      next
        case False
        then obtain x where x: "x \<in> set cs" "\<not> lower_alnum x" by blast
        have tw: "takeWhile lower_alnum (cs @ ys) = takeWhile lower_alnum cs"
          using x by (simp add: takeWhile_append1)
        have dw: "dropWhile lower_alnum (cs @ ys) = dropWhile lower_alnum cs @ ys"
          using x by (simp add: dropWhile_append1)
        have "length (dropWhile lower_alnum cs) < length xs"
          using Cons length_dropWhile_le[of lower_alnum cs] by simp
        then have "alnum_tokens (dropWhile lower_alnum cs @ ys)
            = alnum_tokens (dropWhile lower_alnum cs) @ alnum_tokens ys"
          using 1 by blast
        then show ?thesis using True Cons tw dw by (simp add: alnum_tokens_take)
      qed
    qed
  qed
qed

lemma alnum_tokens_maximal_run:
  assumes "t \<noteq> []" and "\<forall>c \<in> set t. lower_alnum c"
    and "pre = [] \<or> \<not> lower_alnum (last pre)"
    and "post = [] \<or> \<not> lower_alnum (hd post)"
  shows "alnum_tokens (pre @ t @ post) = alnum_tokens pre @ [t] @ alnum_tokens post"
proof -
  have "alnum_tokens (pre @ t @ post) = alnum_tokens pre @ alnum_tokens (t @ post)"
    using assms(3) by (rule alnum_tokens_append_left)
  also have "alnum_tokens (t @ post) = alnum_tokens t @ alnum_tokens post"
    using assms(4) by (rule alnum_tokens_append_right)
  finally show ?thesis using alnum_tokens_run[OF assms(1,2)] by simp
qed

text \<open>
  The non-empty pieces that \<open>split(/[^a-z0-9]+/g)\<close> returns are the tokens; the filter
  on the length drops the empty pieces.
\<close>

lemma split_loop_tokens:
  "(insep \<longrightarrow> cur = []) \<Longrightarrow>
     filter (\<lambda>t. t \<noteq> []) (split_loop s cur insep)
       = filter (\<lambda>t. t \<noteq> []) [cur @ takeWhile lower_alnum s]
         @ alnum_tokens (dropWhile lower_alnum s)"
proof (induction s arbitrary: cur insep)
  case Nil
  then show ?case by simp
next
  case (Cons c cs)
  show ?case
  proof (cases "lower_alnum c")
    case True
    then show ?thesis using Cons.IH[of False "cur @ [c]"] by (simp add: is_az09_lower_alnum)
  next
    case False
    have t: "alnum_tokens cs
        = filter (\<lambda>t. t \<noteq> []) [takeWhile lower_alnum cs]
          @ alnum_tokens (dropWhile lower_alnum cs)"
      by (rule alnum_tokens_unfold)
    show ?thesis
    proof (cases insep)
      case True
      then have "cur = []" using Cons.prems by simp
      then show ?thesis using False True Cons.IH[of True "[]"] t
        by (simp add: alnum_tokens_skip is_az09_lower_alnum)
    next
      case nosep: False
      show ?thesis using False nosep Cons.IH[of True "[]"] t
        by (simp add: alnum_tokens_skip is_az09_lower_alnum)
    qed
  qed
qed

lemma split_non_alnum_tokens:
  "filter (\<lambda>t. t \<noteq> []) (split_non_alnum s) = alnum_tokens s"
  using split_loop_tokens[of False "[]" s] alnum_tokens_unfold[of s]
  by (simp add: split_non_alnum_def)

lemma long_tokens:
  "filter (\<lambda>token. length token \<ge> 5) (split_non_alnum s)
     = filter (\<lambda>token. length token \<ge> 5) (alnum_tokens s)"
proof -
  have "filter (\<lambda>token. length token \<ge> 5) (split_non_alnum s)
      = filter (\<lambda>token. length token \<ge> 5) (filter (\<lambda>t. t \<noteq> []) (split_non_alnum s))"
    by (auto intro: filter_cong)
  then show ?thesis by (simp only: split_non_alnum_tokens)
qed

text \<open>
  C7. \<open>auditSummaryQuality\<close> returns \<open>ok = true\<close> exactly when every required section
  heading occurs in the summary, every seed identifier occurs in the summary, and the
  latest ask is null, or has no lower-case alphanumeric token of length at least 5, or
  one of the first 8 such tokens occurs in the lower-cased summary. The tokens of the
  ask are \<open>alnum_tokens\<close> of the lower-cased ask: the maximal runs of the characters
  a-z and 0-9, from left to right; lower-casing is \<open>lowercased\<close>; occurring in a string
  is being a contiguous sublist of it.
\<close>

theorem auditSummaryQuality_ok_iff:
  "ok (auditSummaryQuality \<lparr>a_summary = summ, a_identifiers = identifiers, a_latestAsk = latestAsk\<rparr>)
   \<longleftrightarrow>
     (\<forall>section \<in> set REQUIRED_SUMMARY_SECTIONS. sublist section summ)
   \<and> (\<forall>ident \<in> set identifiers. sublist ident summ)
   \<and> (latestAsk = None
      \<or> (\<exists>ask. latestAsk = Some ask
            \<and> filter (\<lambda>token. length token \<ge> 5) (alnum_tokens (lowercased ask)) = [])
      \<or> (\<exists>ask. latestAsk = Some ask
            \<and> (\<exists>token \<in> set (take 8 (filter (\<lambda>token. length token \<ge> 5)
                                       (alnum_tokens (lowercased ask)))).
                  sublist token (lowercased summ))))"
proof -
  let ?R = "concat (map (\<lambda>section. if \<not> str_includes summ section
                       then [''missing_section:'' @ section] else []) REQUIRED_SUMMARY_SECTIONS)"
  have r1: "?R = [] \<longleftrightarrow> (\<forall>section \<in> set REQUIRED_SUMMARY_SECTIONS. sublist section summ)"
    by (auto simp: str_includes_sublist)
  have r2: "filter (\<lambda>ident. \<not> str_includes summ ident) identifiers = []
         \<longleftrightarrow> (\<forall>ident \<in> set identifiers. sublist ident summ)"
    by (auto simp: filter_empty_conv str_includes_sublist)
  have tok: "ask_tokens ask
      = take 8 (filter (\<lambda>token. length token \<ge> 5) (alnum_tokens (lowercased ask)))" for ask
    by (simp add: ask_tokens_def long_tokens toLowerCase_lowercased)
  have empty_ask: "filter (\<lambda>token. length token \<ge> 5) (alnum_tokens (lowercased [])) = []"
    by (simp add: lowercased_def)
  have r3: "hasAskOverlap summ latestAsk \<longleftrightarrow>
      (latestAsk = None
      \<or> (\<exists>ask. latestAsk = Some ask
            \<and> filter (\<lambda>token. length token \<ge> 5) (alnum_tokens (lowercased ask)) = [])
      \<or> (\<exists>ask. latestAsk = Some ask
            \<and> (\<exists>token \<in> set (take 8 (filter (\<lambda>token. length token \<ge> 5)
                                       (alnum_tokens (lowercased ask)))).
                  sublist token (lowercased summ))))"
  proof (cases latestAsk)
    case None
    then show ?thesis by (simp add: hasAskOverlap_def)
  next
    case (Some ask)
    show ?thesis
    proof (cases "ask = []")
      case True
      then show ?thesis using Some empty_ask by (simp add: hasAskOverlap_def)
    next
      case False
      then show ?thesis using Some
        by (auto simp: hasAskOverlap_def tok Let_def list_ex_iff str_includes_sublist
            toLowerCase_lowercased)
    qed
  qed
  have "ok (auditSummaryQuality \<lparr>a_summary = summ, a_identifiers = identifiers, a_latestAsk = latestAsk\<rparr>)
     \<longleftrightarrow> ?R = [] \<and> filter (\<lambda>ident. \<not> str_includes summ ident) identifiers = []
         \<and> hasAskOverlap summ latestAsk"
    by (simp add: auditSummaryQuality_def Let_def)
  then show ?thesis using r1 r2 r3 by simp
qed

lemma audit_example_sections:
  "list_all (\<lambda>section. str_includes audit_example_summary section) REQUIRED_SUMMARY_SECTIONS"
  "str_includes audit_example_summary ''/tmp/x.log''"
  by code_simp+

lemma audit_example_tokens:
  "filter (\<lambda>token. length token \<ge> 5) (alnum_tokens (lowercased ''Fix the INDEXING, now''))
     = [''indexing'']"
  "filter (\<lambda>token. length token \<ge> 5) (alnum_tokens (lowercased ''Please restart the gateway''))
     = [''please'', ''restart'', ''gateway'']"
  by code_simp+

lemma audit_example_overlap:
  "str_includes (lowercased audit_example_summary) ''indexing''"
  "\<not> str_includes audit_example_summary ''indexing''"
  "\<not> list_ex (\<lambda>token. str_includes (lowercased audit_example_summary) token)
       [''please'', ''restart'', ''gateway'']"
  by code_simp+

lemma audit_example_reasons:
  "reasons (auditSummaryQuality audit_example_ask) = [''latest_user_ask_not_reflected'']"
  by code_simp

text \<open>
  The first audit passes only because the ask is cut into tokens and lower-cased:
  \<open>indexing\<close> is the one long token of \<open>Fix the INDEXING, now\<close>, and it occurs in the
  lower-cased summary, not in the summary as written. The second audit fails on the ask
  alone, the third on the sections.
\<close>

theorem auditSummaryQuality_ok_iff_witness:
  "ok (auditSummaryQuality audit_example_ok)
   \<and> alnum_tokens (lowercased ''Fix the INDEXING, now'') = [''fix'', ''the'', ''indexing'', ''now'']
   \<and> sublist ''indexing'' (lowercased audit_example_summary)
   \<and> \<not> sublist ''indexing'' audit_example_summary
   \<and> \<not> ok (auditSummaryQuality audit_example_ask)
   \<and> reasons (auditSummaryQuality audit_example_ask) = [''latest_user_ask_not_reflected'']
   \<and> \<not> ok (auditSummaryQuality audit_example_bad)"
proof -
  have sec: "\<forall>section \<in> set REQUIRED_SUMMARY_SECTIONS. sublist section audit_example_summary"
    using audit_example_sections(1) by (simp add: list_all_iff str_includes_sublist)
  have idn: "\<forall>ident \<in> set [''/tmp/x.log'']. sublist ident audit_example_summary"
    using audit_example_sections(2) by (simp add: str_includes_sublist)
  have hit: "sublist ''indexing'' (lowercased audit_example_summary)"
    and miss: "\<not> sublist ''indexing'' audit_example_summary"
    using audit_example_overlap(1,2) by (simp_all add: str_includes_sublist)
  have toks: "alnum_tokens (lowercased ''Fix the INDEXING, now'')
      = [''fix'', ''the'', ''indexing'', ''now'']"
    by code_simp
  have a: "ok (auditSummaryQuality audit_example_ok)"
    unfolding audit_example_ok_def
      auditSummaryQuality_ok_iff [of audit_example_summary "[''/tmp/x.log'']"
        "Some ''Fix the INDEXING, now''"]
    using sec idn hit by (simp add: audit_example_tokens)
  have none: "\<not> (\<exists>token \<in> set [''please'', ''restart'', ''gateway''].
                 sublist token (lowercased audit_example_summary))"
    using audit_example_overlap(3) by (simp add: list_ex_iff str_includes_sublist)
  have b: "\<not> ok (auditSummaryQuality audit_example_ask)"
    unfolding audit_example_ask_def
      auditSummaryQuality_ok_iff [of audit_example_summary "[''/tmp/x.log'']"
        "Some ''Please restart the gateway''"]
    using none by (simp add: audit_example_tokens)
  have nd: "\<not> str_includes ''Short summary without structure'' ''## Decisions''"
    by code_simp
  then have "\<not> sublist ''## Decisions'' ''Short summary without structure''"
    by (simp add: str_includes_sublist)
  then have c: "\<not> ok (auditSummaryQuality audit_example_bad)"
    unfolding audit_example_bad_def
      auditSummaryQuality_ok_iff [of "''Short summary without structure''"
        "[''abc12345'']" "Some ''Need a status update''"]
    by (simp add: REQUIRED_SUMMARY_SECTIONS_def)
  show ?thesis using a b c hit miss toks audit_example_reasons by simp
qed
section \<open>Opaque identifiers: properties\<close>

lemma prefix_drop_trailing: "prefix (drop_trailing p s) s"
proof -
  have "suffix (dropWhile p (rev s)) (rev s)" by (rule suffix_dropWhile)
  then show ?thesis unfolding drop_trailing_def by (simp add: suffix_to_prefix)
qed

lemma drop_trailing_id: "s \<noteq> [] \<Longrightarrow> \<not> p (last s) \<Longrightarrow> drop_trailing p s = s"
  unfolding drop_trailing_def by (cases "rev s") (auto simp: last_rev[symmetric] simp del: last_rev)

lemma drop_trailing_last:
  "drop_trailing p s \<noteq> [] \<Longrightarrow> \<not> p (last (drop_trailing p s))"
proof -
  assume ne: "drop_trailing p s \<noteq> []"
  then have "dropWhile p (rev s) \<noteq> []" by (simp add: drop_trailing_def)
  then have "\<not> p (hd (dropWhile p (rev s)))" by (rule hd_dropWhile)
  moreover have "last (drop_trailing p s) = hd (dropWhile p (rev s))"
    using ne by (simp add: drop_trailing_def last_rev)
  ultimately show ?thesis by simp
qed

lemma prefix_ne: "prefix e s \<Longrightarrow> e \<noteq> [] \<Longrightarrow> s \<noteq> []"
  by auto

lemma prefix_hd: "prefix e s \<Longrightarrow> e \<noteq> [] \<Longrightarrow> hd e = hd s"
  by (auto simp: prefix_def)

lemma dropWhile_id: "s \<noteq> [] \<Longrightarrow> \<not> p (hd s) \<Longrightarrow> dropWhile p s = s"
  by (cases s) auto

text \<open>What sanitizing leaves at the two ends.\<close>

lemma sanitize_ends:
  assumes "sanitizeExtractedIdentifier v \<noteq> []"
  shows "hd (sanitizeExtractedIdentifier v) \<notin> set leading_wrappers"
    and "last (sanitizeExtractedIdentifier v) \<notin> set trailing_wrappers"
proof -
  let ?t = "dropWhile (\<lambda>c. c \<in> set leading_wrappers) (trim v)"
  have e: "sanitizeExtractedIdentifier v = drop_trailing (\<lambda>c. c \<in> set trailing_wrappers) ?t"
    by (simp add: sanitizeExtractedIdentifier_def)
  have pre: "prefix (sanitizeExtractedIdentifier v) ?t" unfolding e by (rule prefix_drop_trailing)
  then have tne: "?t \<noteq> []" using assms by (rule prefix_ne)
  have "hd (sanitizeExtractedIdentifier v) = hd ?t" using pre assms by (rule prefix_hd)
  moreover have "hd ?t \<notin> set leading_wrappers" using hd_dropWhile[OF tne] by simp
  ultimately show "hd (sanitizeExtractedIdentifier v) \<notin> set leading_wrappers" by simp
  show "last (sanitizeExtractedIdentifier v) \<notin> set trailing_wrappers"
    using drop_trailing_last[of "\<lambda>c. c \<in> set trailing_wrappers" ?t] assms unfolding e by simp
qed

lemma sanitize_keeps_head:
  assumes "v \<noteq> []" "\<not> is_space (hd v)" "hd v \<notin> set leading_wrappers"
    and "sanitizeExtractedIdentifier v \<noteq> []"
  shows "hd (sanitizeExtractedIdentifier v) = hd v"
proof -
  have d: "dropWhile is_space v = v" using assms(1,2) by (rule dropWhile_id)
  have p1: "prefix (trim v) v" unfolding trim_def d by (rule prefix_drop_trailing)
  let ?t = "dropWhile (\<lambda>c. c \<in> set leading_wrappers) (trim v)"
  have e: "sanitizeExtractedIdentifier v = drop_trailing (\<lambda>c. c \<in> set trailing_wrappers) ?t"
    by (simp add: sanitizeExtractedIdentifier_def)
  have pre: "prefix (sanitizeExtractedIdentifier v) ?t" unfolding e by (rule prefix_drop_trailing)
  then have tne: "?t \<noteq> []" using assms(4) by (rule prefix_ne)
  have trne: "trim v \<noteq> []" using tne by (cases "trim v") auto
  have h1: "hd (trim v) = hd v" using p1 trne by (rule prefix_hd)
  then have "?t = trim v" using trne assms(3) by (intro dropWhile_id) simp_all
  then have "prefix (sanitizeExtractedIdentifier v) (trim v)" using pre by simp
  then have "hd (sanitizeExtractedIdentifier v) = hd (trim v)" using assms(4) by (rule prefix_hd)
  then show ?thesis using h1 by simp
qed

lemma sanitize_id:
  assumes "v \<noteq> []" "\<not> is_space (hd v)" "hd v \<notin> set leading_wrappers"
    and "\<not> is_space (last v)" "last v \<notin> set trailing_wrappers"
  shows "sanitizeExtractedIdentifier v = v"
proof -
  have d: "dropWhile is_space v = v" using assms(1,2) by (rule dropWhile_id)
  have t: "trim v = v" unfolding trim_def d using assms(1,4) by (rule drop_trailing_id)
  have l: "dropWhile (\<lambda>c. c \<in> set leading_wrappers) v = v"
    using assms(1,3) by (intro dropWhile_id) simp_all
  show ?thesis unfolding sanitizeExtractedIdentifier_def t l
    using assms(1,5) by (intro drop_trailing_id) simp_all
qed

text \<open>Facts about the character classes.\<close>

lemma digit_plain:
  "is_digit c \<Longrightarrow> \<not> is_space c \<and> c \<notin> set leading_wrappers \<and> c \<notin> set trailing_wrappers"
  by (auto simp: is_digit_def in_range_def is_space_def leading_wrappers_def trailing_wrappers_def)

lemma letter_plain:
  "is_letter c \<Longrightarrow> \<not> is_space c \<and> c \<notin> set leading_wrappers \<and> \<not> is_digit c"
  by (auto simp: is_letter_def is_digit_def in_range_def is_space_def leading_wrappers_def)

lemma hex_plain:
  "is_hex c \<Longrightarrow> \<not> is_space c \<and> c \<notin> set leading_wrappers \<and> c \<notin> set trailing_wrappers"
  by (auto simp: is_hex_def is_digit_def in_range_def is_space_def leading_wrappers_def
      trailing_wrappers_def)

lemma host_plain:
  "is_host_char c \<Longrightarrow> \<not> is_space c \<and> c \<notin> set leading_wrappers"
  by (auto simp: is_host_char_def is_letter_def is_digit_def in_range_def is_space_def
      leading_wrappers_def)

lemma colon_not_digit: "\<not> is_digit CHR '':''"
  by (simp add: is_digit_def in_range_def)

lemma takeWhile_ends:
  assumes "takeWhile p s \<noteq> []"
  shows "p (hd (takeWhile p s))" "p (last (takeWhile p s))"
proof -
  have all: "\<forall>x \<in> set (takeWhile p s). p x" by (auto dest: set_takeWhileD)
  have "hd (takeWhile p s) \<in> set (takeWhile p s)" using assms by (rule hd_in_set)
  then show "p (hd (takeWhile p s))" using all by blast
  have "last (takeWhile p s) \<in> set (takeWhile p s)" using assms by (rule last_in_set)
  then show "p (last (takeWhile p s))" using all by blast
qed

lemma match_hex_shape: "match_hex s = Some m \<Longrightarrow> kept_whole m"
proof -
  assume "match_hex s = Some m"
  then have m: "m = takeWhile is_hex s" and len: "length m \<ge> 8"
    by (auto simp: match_hex_def Let_def split: if_splits)
  have ne: "takeWhile is_hex s \<noteq> []" using m len by auto
  have "is_hex (hd m)" "is_hex (last m)" unfolding m using takeWhile_ends[OF ne] by simp_all
  then have "sanitizeExtractedIdentifier m = m"
    using ne m by (intro sanitize_id) (simp_all add: hex_plain)
  then show ?thesis using len by (simp add: kept_whole_def)
qed

lemma match_digits_shape: "match_digits prev s = Some m \<Longrightarrow> kept_whole m"
proof -
  assume "match_digits prev s = Some m"
  then have m: "m = takeWhile is_digit s" and len: "length m \<ge> 6"
    by (auto simp: match_digits_def Let_def split: if_splits)
  have ne: "takeWhile is_digit s \<noteq> []" using m len by auto
  have "is_digit (hd m)" "is_digit (last m)" unfolding m using takeWhile_ends[OF ne] by simp_all
  then have "sanitizeExtractedIdentifier m = m"
    using ne m by (intro sanitize_id) (simp_all add: digit_plain)
  then show ?thesis using len by (simp add: kept_whole_def)
qed

lemma match_url_shape: "match_url s = Some m \<Longrightarrow> plain_head m"
proof -
  assume "match_url s = Some m"
  then have "hd m = CHR ''h'' \<and> m \<noteq> []"
    by (auto simp: match_url_def Let_def split: if_splits)
  then show ?thesis
    by (simp add: plain_head_def is_digit_def in_range_def is_space_def leading_wrappers_def)
qed

lemma match_path_shape: "match_path s = Some m \<Longrightarrow> plain_head m"
proof -
  assume "match_path s = Some m"
  then have "hd m = CHR ''/'' \<and> m \<noteq> []"
    by (auto simp: match_path_def Let_def split: if_splits list.splits)
  then show ?thesis
    by (simp add: plain_head_def is_digit_def in_range_def is_space_def leading_wrappers_def)
qed

lemma match_winpath_shape: "match_winpath s = Some m \<Longrightarrow> plain_head m"
proof -
  assume "match_winpath s = Some m"
  then have "is_letter (hd m) \<and> m \<noteq> []"
    by (auto simp: match_winpath_def Let_def split: if_splits list.splits)
  then show ?thesis by (simp add: plain_head_def letter_plain)
qed

lemma match_hostport_shape: "match_hostport s = Some m \<Longrightarrow> kept_whole m"
proof -
  assume a: "match_hostport s = Some m"
  define b where "b = takeWhile is_hostpath_char s"
  define as where "as = takeWhile is_host_char s"
  from a obtain c r where
    ex: "list_ex (\<lambda>k. s ! k = CHR ''.'') [1..<min (length as) (length b - 1)]"
    and rest: "drop (length b) s = c # r"
    and c: "c = CHR '':''"
    and dne: "take 5 (takeWhile is_digit r) \<noteq> []"
    and m: "m = b @ c # take 5 (takeWhile is_digit r)"
    unfolding match_hostport_def b_def[symmetric] as_def[symmetric]
    by (auto simp: Let_def split: if_splits list.splits)
  from ex have "1 < length as" by (auto simp: list_ex_iff)
  then have asne: "as \<noteq> []" by auto
  then have sne: "s \<noteq> []" by (auto simp: as_def)
  have "is_host_char (hd as)" using takeWhile_ends(1)[of is_host_char s] asne by (simp add: as_def)
  moreover have "hd as = hd s" using asne sne by (cases s) (auto simp: as_def split: if_splits)
  ultimately have hs: "is_host_char (hd s)" by simp
  then have bne: "b \<noteq> []" using sne by (cases s) (auto simp: b_def is_hostpath_char_def)
  have "hd b = hd s" using bne sne by (cases s) (auto simp: b_def split: if_splits)
  then have hm: "hd m = hd s" using bne m by simp
  have "\<forall>x \<in> set (take 5 (takeWhile is_digit r)). is_digit x"
    by (auto dest: in_set_takeD set_takeWhileD)
  then have "is_digit (last (take 5 (takeWhile is_digit r)))"
    using dne last_in_set by blast
  then have lm: "is_digit (last m)" using dne m by simp
  have mne: "m \<noteq> []" using m by simp
  have "sanitizeExtractedIdentifier m = m"
    using mne hm hs lm by (intro sanitize_id) (simp_all add: host_plain digit_plain)
  moreover have "CHR '':'' \<in> set m" using m c by simp
  ultimately show ?thesis by (simp add: kept_whole_def)
qed

lemma first_some_cases: "first_some xs = Some m \<Longrightarrow> Some m \<in> set xs"
  by (induction xs rule: first_some.induct) auto

lemma match_at_shape: "match_at prev s = Some m \<Longrightarrow> kept_whole m \<or> plain_head m"
proof -
  assume "match_at prev s = Some m"
  then have "Some m \<in> set [match_hex s, match_url s, match_path s, match_winpath s,
                 match_hostport s, match_digits prev s]"
    unfolding match_at_def by (rule first_some_cases)
  then consider "match_hex s = Some m" | "match_url s = Some m" | "match_path s = Some m"
    | "match_winpath s = Some m" | "match_hostport s = Some m" | "match_digits prev s = Some m"
    by auto
  then show ?thesis
    by cases (simp_all add: match_hex_shape match_url_shape match_path_shape match_winpath_shape
        match_hostport_shape match_digits_shape)
qed

lemma match_all_shape:
  "m \<in> set (match_all prev skip s) \<Longrightarrow> kept_whole m \<or> plain_head m"
proof (induction s arbitrary: prev skip)
  case Nil
  then show ?case by simp
next
  case (Cons c cs)
  then show ?case
    by (auto split: if_splits option.splits dest: match_at_shape)
qed

lemma shape_not_short_integer:
  assumes "kept_whole m \<or> plain_head m"
    and "length (sanitizeExtractedIdentifier m) \<ge> 4"
  shows "\<not> (list_all is_digit (sanitizeExtractedIdentifier m)
           \<and> length (sanitizeExtractedIdentifier m) < 6)"
proof (cases "kept_whole m")
  case True
  then show ?thesis using colon_not_digit by (auto simp: kept_whole_def list_all_iff)
next
  case False
  then have p: "plain_head m" using assms(1) by simp
  have ne: "sanitizeExtractedIdentifier m \<noteq> []" using assms(2) by auto
  then have "hd (sanitizeExtractedIdentifier m) = hd m"
    using p by (intro sanitize_keeps_head) (simp_all add: plain_head_def)
  then have "\<not> is_digit (hd (sanitizeExtractedIdentifier m))" using p by (simp add: plain_head_def)
  then show ?thesis using ne by (cases "sanitizeExtractedIdentifier m") auto
qed

lemma array_from_set_eq: "array_from_set xs = firstOccurrences xs"
  by (simp add: array_from_set_def firstOccurrences_foldl)

text \<open>
  C8. \<open>extractOpaqueIdentifiers\<close> returns at most 12 entries; every entry has at least 4
  characters, starts with no leading wrapper and ends with no trailing wrapper, and is not
  a bare integer of 4 or 5 digits; the entries are pairwise distinct and stand in the
  order of their first occurrence among the sanitized matches of length at least 4.
\<close>

theorem extractOpaqueIdentifiers_spec:
  "length (extractOpaqueIdentifiers t) \<le> 12
   \<and> (\<forall>e \<in> set (extractOpaqueIdentifiers t).
         length e \<ge> 4
       \<and> hd e \<notin> set leading_wrappers \<and> last e \<notin> set trailing_wrappers
       \<and> \<not> (list_all is_digit e \<and> (length e = 4 \<or> length e = 5)))
   \<and> distinct (extractOpaqueIdentifiers t)
   \<and> extractOpaqueIdentifiers t = take 12 (firstOccurrences (candidate_identifiers t))"
proof -
  have out: "extractOpaqueIdentifiers t = take 12 (firstOccurrences (candidate_identifiers t))"
    by (simp add: extractOpaqueIdentifiers_def MAX_EXTRACTED_IDENTIFIERS_def array_from_set_eq)
  have len: "length (extractOpaqueIdentifiers t) \<le> 12" unfolding out by simp
  have dist: "distinct (extractOpaqueIdentifiers t)" unfolding out by simp
  have sub: "set (extractOpaqueIdentifiers t) \<subseteq> set (candidate_identifiers t)"
    unfolding out using set_take_subset[of 12 "firstOccurrences (candidate_identifiers t)"] by simp
  have each: "length e \<ge> 4
       \<and> hd e \<notin> set leading_wrappers \<and> last e \<notin> set trailing_wrappers
       \<and> \<not> (list_all is_digit e \<and> (length e = 4 \<or> length e = 5))"
    if "e \<in> set (candidate_identifiers t)" for e
  proof -
    from that obtain m where m: "m \<in> set (match_all None 0 t)"
      and e: "e = sanitizeExtractedIdentifier m" and l: "length e \<ge> 4"
      by (auto simp: candidate_identifiers_def)
    have ne: "sanitizeExtractedIdentifier m \<noteq> []" using l e by auto
    have "\<not> (list_all is_digit e \<and> length e < 6)"
      unfolding e using match_all_shape[OF m] l[unfolded e] by (rule shape_not_short_integer)
    then have "\<not> (list_all is_digit e \<and> (length e = 4 \<or> length e = 5))" by auto
    then show ?thesis using l sanitize_ends[OF ne] e by simp
  qed
  show ?thesis using len dist sub each out by blast
qed

lemma identifiers_example_value:
  "extractOpaqueIdentifiers identifiers_example
     = [''123456'', ''https://a.io/b'', ''/tmp/x.log'']"
  by code_simp

theorem extractOpaqueIdentifiers_spec_witness:
  "extractOpaqueIdentifiers identifiers_example
     = [''123456'', ''https://a.io/b'', ''/tmp/x.log'']
   \<and> length (extractOpaqueIdentifiers identifiers_example) \<le> 12
   \<and> distinct (extractOpaqueIdentifiers identifiers_example)
   \<and> ''2026'' \<notin> set (extractOpaqueIdentifiers identifiers_example)
   \<and> ''18789'' \<notin> set (extractOpaqueIdentifiers identifiers_example)"
proof -
  note spec = extractOpaqueIdentifiers_spec [of identifiers_example]
  have a: "length (extractOpaqueIdentifiers identifiers_example) \<le> 12" using spec by blast
  have b: "distinct (extractOpaqueIdentifiers identifiers_example)" using spec by blast
  show ?thesis using a b by (simp add: identifiers_example_value)
qed

section \<open>The \<open>session_before_compact\<close> handler: properties\<close>


lemma total_attempts_positive:
  "(if k_qualityGuardEnabled k then nat (resolveQualityGuardMaxRetries v + 1) else 1) > 0"
  by (simp add: resolveQualityGuardMaxRetries_def clampNonNegativeInt_def
      MAX_QUALITY_GUARD_MAX_RETRIES_def Let_def)


lemma and_then_Inl_iff:
  "(\<exists>e. and_then m f = Inl e) \<longleftrightarrow> (\<exists>e. m = Inl e) \<or> (\<exists>v e. m = Inr v \<and> f v = Inl e)"
  by (cases m) (auto simp: and_then_def)









end
